theory Spec2Isabelle
  imports Main "HOL-Library.Sublist" "HOL-Library.Multiset"
begin

section \<open>Strings\<close>

text \<open>
  A JavaScript string is a sequence of UTF-16 code units.  A code unit is modelled by
  its number, a string by the list of its code units; every function below is defined
  on all such lists.  \<open>js\<close> writes an ASCII literal as such a list.
\<close>

type_synonym jchar = nat
type_synonym jstring = "jchar list"

definition js :: "string \<Rightarrow> jstring" where
  "js s = map of_char s"

definition DQUOTE :: jchar where "DQUOTE = 34"
definition COMMA :: jchar where "COMMA = 44"
definition LF :: jchar where "LF = 10"
definition CR :: jchar where "CR = 13"
definition SPACE :: jchar where "SPACE = 32"

section \<open>Data model (types.ts)\<close>

datatype relation_tag = PAN_Of
datatype entity_type = Organisation | Name

record ExtractedEntity =
  pan :: jstring
  relation :: relation_tag
  entityName :: jstring
  entityType :: entity_type

record ComparisonResult =
  matches :: "ExtractedEntity list"
  aiOnly :: "ExtractedEntity list"
  groundTruthOnly :: "ExtractedEntity list"

section \<open>Reconciliation (handleVerify, after the ground truth is parsed)\<close>

text \<open>
  \<^verbatim>\<open>
  const aiPans = new Set(aiData.map(d => d.pan));
  const gtPans = new Set(groundTruthData.map(d => d.pan));
  const matches = aiData.filter(d => gtPans.has(d.pan));
  const aiOnly = aiData.filter(d => !gtPans.has(d.pan));
  const groundTruthOnly = groundTruthData.filter(d => !aiPans.has(d.pan));
  \<close>
  \<open>Set.has\<close> on strings is equality of the code unit sequences.
\<close>

definition compareEntities ::
    "ExtractedEntity list \<Rightarrow> ExtractedEntity list \<Rightarrow> ComparisonResult" where
  "compareEntities aiData groundTruthData =
     (let aiPans = set (map pan aiData);
          gtPans = set (map pan groundTruthData)
      in \<lparr> matches = filter (\<lambda>d. pan d \<in> gtPans) aiData,
           aiOnly = filter (\<lambda>d. \<not> pan d \<in> gtPans) aiData,
           groundTruthOnly = filter (\<lambda>d. \<not> pan d \<in> aiPans) groundTruthData \<rparr>)"

text \<open>
  Putting two lists back together by position: the mask says, for each position of the
  original list, whether its element went to the first list.
\<close>

fun interleave :: "bool list \<Rightarrow> 'a list \<Rightarrow> 'a list \<Rightarrow> 'a list" where
  "interleave [] xs ys = []"
| "interleave (True # bs) (x # xs) ys = x # interleave bs xs ys"
| "interleave (False # bs) xs (y # ys) = y # interleave bs xs ys"
| "interleave (True # bs) [] ys = []"
| "interleave (False # bs) xs [] = []"

section \<open>String primitives of the platform\<close>

text \<open>
  \<open>String.prototype.trim\<close> and the regular expression class \<open>\s\<close> use the same set:
  the white space and line terminator code points of ECMAScript.
\<close>

definition is_ws :: "jchar \<Rightarrow> bool" where
  "is_ws c \<longleftrightarrow>
     c \<in> set [9, 10, 11, 12, 13, 32, 160, 5760, 8232, 8233, 8239, 8287, 12288, 65279]
     \<or> (8192 \<le> c \<and> c \<le> 8202)"

text \<open>The dot of a regular expression (no \<open>s\<close> flag) matches all but these four.\<close>

definition is_line_terminator :: "jchar \<Rightarrow> bool" where
  "is_line_terminator c \<longleftrightarrow> c \<in> set [10, 13, 8232, 8233]"

definition trim :: "jstring \<Rightarrow> jstring" where
  "trim s = rev (dropWhile is_ws (rev (dropWhile is_ws s)))"

text \<open>\<open>Array.prototype.join\<close>.\<close>

fun join :: "jstring \<Rightarrow> jstring list \<Rightarrow> jstring" where
  "join sep [] = []"
| "join sep [x] = x"
| "join sep (x # y # ys) = x @ sep @ join sep (y # ys)"

text \<open>\<open>s.split(c)\<close> for a separator of one code unit; the empty string gives \<open>[""]\<close>.\<close>

fun split_on :: "jchar \<Rightarrow> jstring \<Rightarrow> jstring list" where
  "split_on sep [] = [[]]"
| "split_on sep (c # cs) =
     (if c = sep then [] # split_on sep cs
      else (case split_on sep cs of
              [] \<Rightarrow> [[c]]
            | l # ls \<Rightarrow> (c # l) # ls))"

text \<open>
  \<open>s.split(/\r?\n/)\<close>: a line feed ends a line, and so does a carriage return that a line
  feed follows directly; a carriage return alone does not.
\<close>

fun split_lines :: "jstring \<Rightarrow> jstring list" where
  "split_lines [] = [[]]"
| "split_lines (c # cs) =
     (if c = LF then [] # split_lines cs
      else if c = CR \<and> cs \<noteq> [] \<and> hd cs = LF then [] # split_lines (tl cs)
      else (case split_lines cs of
              [] \<Rightarrow> [[c]]
            | l # ls \<Rightarrow> (c # l) # ls))"

text \<open>\<open>v.replace(/"/g, '')\<close> and \<open>v.replace(/"/g, '""')\<close>.\<close>

definition remove_quotes :: "jstring \<Rightarrow> jstring" where
  "remove_quotes v = filter (\<lambda>c. c \<noteq> DQUOTE) v"

definition double_quotes :: "jstring \<Rightarrow> jstring" where
  "double_quotes v = concat (map (\<lambda>c. if c = DQUOTE then [DQUOTE, DQUOTE] else [c]) v)"

text \<open>\<open>Array.prototype.indexOf\<close>: the first position, or -1.\<close>

fun indexOf_from :: "'a list \<Rightarrow> 'a \<Rightarrow> int \<Rightarrow> int" where
  "indexOf_from [] x i = - 1"
| "indexOf_from (y # ys) x i = (if y = x then i else indexOf_from ys x (i + 1))"

definition indexOf :: "'a list \<Rightarrow> 'a \<Rightarrow> int" where
  "indexOf xs x = indexOf_from xs x 0"

text \<open>\<open>xs[i]\<close>: \<open>undefined\<close> (here \<open>None\<close>) out of range.\<close>

definition at :: "'a list \<Rightarrow> int \<Rightarrow> 'a option" where
  "at xs i = (if 0 \<le> i \<and> i < int (length xs) then Some (xs ! nat i) else None)"

section \<open>CSV export (handleDownloadCsv)\<close>

definition relation_label :: "relation_tag \<Rightarrow> jstring" where
  "relation_label r = (case r of PAN_Of \<Rightarrow> js ''PAN_Of'')"

definition entityType_label :: "entity_type \<Rightarrow> jstring" where
  "entityType_label t = (case t of Organisation \<Rightarrow> js ''Organisation'' | Name \<Rightarrow> js ''Name'')"

definition quoted :: "jstring \<Rightarrow> jstring" where
  "quoted v = DQUOTE # v @ [DQUOTE]"

definition csvHeaders :: "jstring list" where
  "csvHeaders = [js ''PAN'', js ''Relation'', js ''Entity Name'', js ''Entity Type'']"

definition csvRow :: "ExtractedEntity \<Rightarrow> jstring" where
  "csvRow item =
     join [COMMA]
       [quoted (pan item),
        quoted (relation_label (relation item)),
        quoted (double_quotes (entityName item)),
        quoted (entityType_label (entityType item))]"

definition csvContent :: "ExtractedEntity list \<Rightarrow> jstring" where
  "csvContent extractedData =
     (let csvRows = join [COMMA] csvHeaders # map csvRow extractedData
      in join [LF] csvRows)"

text \<open>Nothing is downloaded while there is no extraction result.\<close>

definition handleDownloadCsv :: "ExtractedEntity list option \<Rightarrow> jstring option" where
  "handleDownloadCsv extractedData =
     (case extractedData of None \<Rightarrow> None | Some d \<Rightarrow> Some (csvContent d))"

section \<open>CSV import (parseCsv)\<close>

text \<open>
  The data rows are cut by \<^verbatim>\<open>/(".*?"|[^",]+)(?=\s*,|\s*$)/g\<close>.
  The lookahead \<^verbatim>\<open>(?=\s*,|\s*$)\<close> at the head of a string: white space and then a
  comma, or white space up to the end.  A comma is no white space, so giving back white
  space never helps the first alternative.
\<close>

fun la_comma :: "jstring \<Rightarrow> bool" where
  "la_comma [] = False"
| "la_comma (c # cs) = (if is_ws c then la_comma cs else c = COMMA)"

definition lookahead :: "jstring \<Rightarrow> bool" where
  "lookahead s \<longleftrightarrow> la_comma s \<or> list_all is_ws s"

text \<open>
  \<^verbatim>\<open>.*?"\<close> and the lookahead, after the opening quote: the lazy star first tries to
  stop, and takes one more code unit (any but a line terminator) when it cannot.  The
  result is the number of code units taken, the closing quote included.
\<close>

fun lazy_quoted :: "jstring \<Rightarrow> nat option" where
  "lazy_quoted [] = None"
| "lazy_quoted (c # cs) =
     (if c = DQUOTE \<and> lookahead cs then Some 1
      else if is_line_terminator c then None
      else map_option Suc (lazy_quoted cs))"

text \<open>
  \<^verbatim>\<open>[^",]+\<close> and the lookahead: the greedy plus takes the whole run, then gives
  back one code unit at a time, down to one.
\<close>

definition greedy_bare :: "jstring \<Rightarrow> nat option" where
  "greedy_bare s =
     (let n = length (takeWhile (\<lambda>c. c \<noteq> DQUOTE \<and> c \<noteq> COMMA) s)
      in find (\<lambda>k. lookahead (drop k s)) (rev [1 ..< Suc n]))"

text \<open>One attempt at the head of a string: the length of the match, if there is one.\<close>

definition match_at :: "jstring \<Rightarrow> nat option" where
  "match_at s =
     (case (case s of [] \<Rightarrow> None
            | c # cs \<Rightarrow> if c = DQUOTE then map_option Suc (lazy_quoted cs) else None) of
        Some n \<Rightarrow> Some n
      | None \<Rightarrow> greedy_bare s)"

text \<open>
  \<open>line.match(re)\<close> with the \<open>g\<close> flag: the leftmost match, then on from its end.  A
  match has at least one code unit, so after a match of \<open>n\<close> code units at the head of
  \<open>c # cs\<close> the search goes on in \<open>drop (n - 1) cs\<close>; without a match it goes on
  one code unit further.
\<close>

function match_all :: "jstring \<Rightarrow> jstring list" where
  "match_all [] = []"
| "match_all (c # cs) =
     (case match_at (c # cs) of
        None \<Rightarrow> match_all cs
      | Some n \<Rightarrow> take n (c # cs) # match_all (drop (n - 1) cs))"
  by pat_completeness auto
termination
  by (relation "measure length") auto

definition csvError :: string where
  \<open>csvError = ''CSV must contain "PAN", "Entity Name", and "Entity Type" headers.''\<close>

definition parseRow :: "int \<Rightarrow> int \<Rightarrow> int \<Rightarrow> jstring \<Rightarrow> ExtractedEntity" where
  "parseRow panIndex nameIndex typeIndex line =
     (let values = map remove_quotes (match_all line)
      in \<lparr> pan = (case at values panIndex of None \<Rightarrow> [] | Some v \<Rightarrow> trim v),
           relation = PAN_Of,
           entityName = (case at values nameIndex of None \<Rightarrow> [] | Some v \<Rightarrow> trim v),
           entityType =
             (if map_option trim (at values typeIndex) = Some (js ''Organisation'')
              then Organisation else Name) \<rparr>)"

fun parseRows ::
    "int \<Rightarrow> int \<Rightarrow> int \<Rightarrow> jstring list \<Rightarrow> ExtractedEntity list \<Rightarrow> ExtractedEntity list" where
  "parseRows panIndex nameIndex typeIndex [] result = result"
| "parseRows panIndex nameIndex typeIndex (line # lines) result =
     (let entity = parseRow panIndex nameIndex typeIndex line
      in parseRows panIndex nameIndex typeIndex lines
           (if pan entity \<noteq> [] \<and> entityName entity \<noteq> [] then result @ [entity] else result))"

definition headersOf :: "jstring \<Rightarrow> jstring list" where
  "headersOf line = map (\<lambda>h. remove_quotes (trim h)) (split_on COMMA line)"

definition parseCsv :: "jstring \<Rightarrow> string + ExtractedEntity list" where
  "parseCsv csvText =
     (let lines = split_lines (trim csvText)
      in if length lines < 2 then Inr []
         else
           (let headers = headersOf (hd lines);
                panIndex = indexOf headers (js ''PAN'');
                nameIndex = indexOf headers (js ''Entity Name'');
                typeIndex = indexOf headers (js ''Entity Type'')
            in if panIndex = - 1 \<or> nameIndex = - 1 \<or> typeIndex = - 1 then Inl csvError
               else Inr (parseRows panIndex nameIndex typeIndex (tl lines) [])))"

text \<open>\<open>handleVerify\<close>: a failure of the import is reported, nothing is compared.\<close>

definition handleVerify :: "ExtractedEntity list \<Rightarrow> jstring \<Rightarrow> string + ComparisonResult" where
  "handleVerify aiData csvText =
     (case parseCsv csvText of
        Inl e \<Rightarrow> Inl e
      | Inr groundTruthData \<Rightarrow> Inr (compareEntities aiData groundTruthData))"

section \<open>Reading the document (readFileContent)\<close>

text \<open>
  What the code sees of pdf.js: a document has \<open>numPages\<close> and \<open>getPage\<close>, a page has
  \<open>getTextContent\<close>, a text content has \<open>items\<close>; an item either carries \<open>str\<close> or is
  marked content without it.  Each of the awaited calls may reject, with a message.
\<close>

datatype text_item = TextItem jstring | TextMarkedContent

record text_content =
  items :: "text_item list"

record pdf_page =
  getTextContent :: "string + text_content"

record pdf_document =
  numPages :: nat
  getPage :: "nat \<Rightarrow> string + pdf_page"

record input_file =
  ftype :: jstring
  ftext :: "string + jstring"
  getDocument :: "string + pdf_document"

text \<open>\<^verbatim>\<open>content.items.map(item => ('str' in item ? item.str : '')).join(' ')\<close>\<close>

definition item_str :: "text_item \<Rightarrow> jstring" where
  "item_str item = (case item of TextItem s \<Rightarrow> s | TextMarkedContent \<Rightarrow> [])"

definition pageText :: "text_content \<Rightarrow> jstring" where
  "pageText content = join [SPACE] (map item_str (items content))"

text \<open>\<^verbatim>\<open>for (let i = 1; i <= numPages; i++) { ...; fullText += pageText + '\n'; }\<close>\<close>

function readPages :: "pdf_document \<Rightarrow> nat \<Rightarrow> jstring \<Rightarrow> string + jstring" where
  "readPages doc i fullText =
     (if i \<le> numPages doc then
        (case getPage doc i of
           Inl e \<Rightarrow> Inl e
         | Inr page \<Rightarrow>
             (case getTextContent page of
                Inl e \<Rightarrow> Inl e
              | Inr content \<Rightarrow> readPages doc (i + 1) (fullText @ pageText content @ [LF])))
      else Inr fullText)"
  by pat_completeness auto
termination
  by (relation "measure (\<lambda>(doc, i, fullText). Suc (numPages doc) - i)") auto

definition readFileContent :: "input_file \<Rightarrow> string + jstring" where
  "readFileContent f =
     (if ftype f = js ''text/plain'' then ftext f
      else if ftype f = js ''application/pdf'' then
        (case getDocument f of
           Inl e \<Rightarrow> Inl e
         | Inr doc \<Rightarrow> readPages doc 1 [])
      else Inl ''Unsupported file type. Please upload a .txt or .pdf file.'')"

section \<open>JSON.parse\<close>

text \<open>
  The grammar of ECMA-404.  A number is kept as its text and an object as the list of
  its members in the order of the text; the extraction never looks inside either.
\<close>

datatype json =
    JNull
  | JBool bool
  | JNumber jstring
  | JString jstring
  | JArray "json list"
  | JObject "(jstring \<times> json) list"

definition is_json_ws :: "jchar \<Rightarrow> bool" where
  "is_json_ws c \<longleftrightarrow> c \<in> set [9, 10, 13, 32]"

definition skip_ws :: "jstring \<Rightarrow> jstring" where
  "skip_ws s = dropWhile is_json_ws s"

definition is_digit :: "jchar \<Rightarrow> bool" where
  "is_digit c \<longleftrightarrow> 48 \<le> c \<and> c \<le> 57"

definition hex_val :: "jchar \<Rightarrow> nat option" where
  "hex_val c =
     (if 48 \<le> c \<and> c \<le> 57 then Some (c - 48)
      else if 65 \<le> c \<and> c \<le> 70 then Some (c - 55)
      else if 97 \<le> c \<and> c \<le> 102 then Some (c - 87)
      else None)"

text \<open>The escapes of one letter: quote, backslash, slash, b, f, n, r, t.\<close>

definition unescape :: "jchar \<Rightarrow> jchar option" where
  "unescape c =
     (if c = 34 then Some 34 else if c = 92 then Some 92 else if c = 47 then Some 47
      else if c = 98 then Some 8 else if c = 102 then Some 12 else if c = 110 then Some 10
      else if c = 114 then Some 13 else if c = 116 then Some 9 else None)"

text \<open>
  A string after its opening quote: its code units and the rest of the text.  Control
  characters are not allowed unescaped.
\<close>

fun parse_string_body :: "jstring \<Rightarrow> (jstring \<times> jstring) option" where
  "parse_string_body [] = None"
| "parse_string_body (c # cs) =
     (if c = 34 then Some ([], cs)
      else if c < 32 then None
      else if c = 92 then
        (case cs of
           [] \<Rightarrow> None
         | e # es \<Rightarrow>
             if e = 117 then
               (case es of
                  h1 # h2 # h3 # h4 # rest \<Rightarrow>
                    (case (hex_val h1, hex_val h2, hex_val h3, hex_val h4) of
                       (Some a, Some b, Some c', Some d) \<Rightarrow>
                         (case parse_string_body rest of
                            None \<Rightarrow> None
                          | Some (str, r) \<Rightarrow> Some ((4096 * a + 256 * b + 16 * c' + d) # str, r))
                     | _ \<Rightarrow> None)
                | _ \<Rightarrow> None)
             else
               (case unescape e of
                  None \<Rightarrow> None
                | Some u \<Rightarrow>
                    (case parse_string_body es of
                       None \<Rightarrow> None
                     | Some (str, r) \<Rightarrow> Some (u # str, r))))
      else
        (case parse_string_body cs of
           None \<Rightarrow> None
         | Some (str, r) \<Rightarrow> Some (c # str, r)))"

text \<open>
  A number is an integer part, then an optional fraction, then an optional exponent.
  The integer part: an optional minus, then 0 alone or a digit from 1 to 9 and more
  digits.
\<close>

definition parse_int :: "jstring \<Rightarrow> (jstring \<times> jstring) option" where
  "parse_int s =
     (let (sign, s1) = (case s of c # cs \<Rightarrow> if c = 45 then ([c], cs) else ([], s) | [] \<Rightarrow> ([], s))
      in case s1 of
           [] \<Rightarrow> None
         | c # cs \<Rightarrow>
             if \<not> is_digit c then None
             else if c = 48 then Some (sign @ [c], cs)
             else Some (sign @ takeWhile is_digit s1, dropWhile is_digit s1))"

text \<open>The fraction: a point and at least one digit.\<close>

definition parse_frac :: "jstring \<Rightarrow> (jstring \<times> jstring) option" where
  "parse_frac s =
     (case s of
        [] \<Rightarrow> Some ([], s)
      | d # ds \<Rightarrow>
          if d = 46 then
            (if takeWhile is_digit ds = [] then None
             else Some (d # takeWhile is_digit ds, dropWhile is_digit ds))
          else Some ([], s))"

text \<open>The exponent: e or E, an optional sign, at least one digit.\<close>

definition parse_exp :: "jstring \<Rightarrow> (jstring \<times> jstring) option" where
  "parse_exp s =
     (case s of
        [] \<Rightarrow> Some ([], s)
      | e # es \<Rightarrow>
          if e = 69 \<or> e = 101 then
            (let (sg, s4) = (case es of
                               g # gs \<Rightarrow> if g = 43 \<or> g = 45 then ([g], gs) else ([], es)
                             | [] \<Rightarrow> ([], es))
             in if takeWhile is_digit s4 = [] then None
                else Some (e # sg @ takeWhile is_digit s4, dropWhile is_digit s4))
          else Some ([], s))"

definition parse_number :: "jstring \<Rightarrow> (jstring \<times> jstring) option" where
  "parse_number s =
     (case parse_int s of
        None \<Rightarrow> None
      | Some (ip, s2) \<Rightarrow>
          (case parse_frac s2 of
             None \<Rightarrow> None
           | Some (fp, s3) \<Rightarrow>
               (case parse_exp s3 of
                  None \<Rightarrow> None
                | Some (ep, r) \<Rightarrow> Some (ip @ fp @ ep, r))))"

text \<open>The values that hold no other value: strings, the three literals and numbers.\<close>

definition parse_scalar :: "jstring \<Rightarrow> (json \<times> jstring) option" where
  "parse_scalar s =
     (case s of
        [] \<Rightarrow> None
      | c # cs \<Rightarrow>
          if c = 34 then
            (case parse_string_body cs of
               None \<Rightarrow> None
             | Some (str, r) \<Rightarrow> Some (JString str, r))
          else if take 4 s = js ''true'' then Some (JBool True, drop 4 s)
          else if take 5 s = js ''false'' then Some (JBool False, drop 5 s)
          else if take 4 s = js ''null'' then Some (JNull, drop 4 s)
          else (case parse_number s of
                  None \<Rightarrow> None
                | Some (lexeme, r) \<Rightarrow> Some (JNumber lexeme, r)))"

text \<open>
  Values, the elements of an array after its bracket and the members of an object after
  its brace.  The first argument bounds the depth of the calls.
\<close>

fun parse_value :: "nat \<Rightarrow> jstring \<Rightarrow> (json \<times> jstring) option"
  and parse_elements :: "nat \<Rightarrow> jstring \<Rightarrow> (json list \<times> jstring) option"
  and parse_members :: "nat \<Rightarrow> jstring \<Rightarrow> ((jstring \<times> json) list \<times> jstring) option"
where
  "parse_value 0 s = None"
| "parse_value (Suc n) s =
     (case skip_ws s of
        [] \<Rightarrow> None
      | c # cs \<Rightarrow>
          if c = 123 then
            (case skip_ws cs of
               [] \<Rightarrow> None
             | d # ds \<Rightarrow>
                 if d = 125 then Some (JObject [], ds)
                 else (case parse_members n (d # ds) of
                         None \<Rightarrow> None
                       | Some (ms, r) \<Rightarrow> Some (JObject ms, r)))
          else if c = 91 then
            (case skip_ws cs of
               [] \<Rightarrow> None
             | d # ds \<Rightarrow>
                 if d = 93 then Some (JArray [], ds)
                 else (case parse_elements n (d # ds) of
                         None \<Rightarrow> None
                       | Some (vs, r) \<Rightarrow> Some (JArray vs, r)))
          else parse_scalar (c # cs))"
| "parse_elements 0 s = None"
| "parse_elements (Suc n) s =
     (case parse_value n s of
        None \<Rightarrow> None
      | Some (v, r) \<Rightarrow>
          (case skip_ws r of
             [] \<Rightarrow> None
           | d # ds \<Rightarrow>
               if d = 44 then
                 (case parse_elements n ds of
                    None \<Rightarrow> None
                  | Some (vs, r') \<Rightarrow> Some (v # vs, r'))
               else if d = 93 then Some ([v], ds)
               else None))"
| "parse_members 0 s = None"
| "parse_members (Suc n) s =
     (case skip_ws s of
        [] \<Rightarrow> None
      | c # cs \<Rightarrow>
          if c \<noteq> 34 then None
          else
            (case parse_string_body cs of
               None \<Rightarrow> None
             | Some (k, r) \<Rightarrow>
                 (case skip_ws r of
                    [] \<Rightarrow> None
                  | d # ds \<Rightarrow>
                      if d \<noteq> 58 then None
                      else
                        (case parse_value n ds of
                           None \<Rightarrow> None
                         | Some (v, r') \<Rightarrow>
                             (case skip_ws r' of
                                [] \<Rightarrow> None
                              | e # es \<Rightarrow>
                                  if e = 44 then
                                    (case parse_members n es of
                                       None \<Rightarrow> None
                                     | Some (ms, r'') \<Rightarrow> Some ((k, v) # ms, r''))
                                  else if e = 125 then Some ([(k, v)], es)
                                  else None)))))"

text \<open>
  The whole text must be one value, white space around it allowed; \<open>None\<close> is the
  \<open>SyntaxError\<close>.  A call never goes deeper than twice the length of the text.
\<close>

definition JSON_parse :: "jstring \<Rightarrow> json option" where
  "JSON_parse s =
     (case parse_value (2 * length s + 2) s of
        None \<Rightarrow> None
      | Some (v, r) \<Rightarrow> if skip_ws r = [] then Some v else None)"

section \<open>Extraction (extractEntitiesFromText)\<close>

text \<open>
  The capability is outside the program: \<open>generateContent\<close> either rejects or resolves
  to a response, whose \<open>text\<close> is a string or \<open>undefined\<close>.
\<close>

datatype api_outcome = Rejects | Resolves "jstring option"

datatype js_error = SyntaxError | TypeError | ApiError | Error string

definition prompt :: "jstring \<Rightarrow> jstring" where
  "prompt text' =
     js ''\<newline>    Based on the following document text, extract all entities of type 'Organisation', 'Name', and 'PAN'.\<newline>    For each PAN found, create a relation 'PAN_Of' linking it to the corresponding Name or Organisation.\<newline>    - If an entity name contains 'PVT. LTD.', 'LTD.', 'SERVICES', 'AGENCIES', 'TRADERS', 'COMMERCIALS', 'UDYOG', 'ENTERPRISES', 'CONSULTANTS', 'DEVELOPERS', 'BUILDERS', 'LOGISTICS', 'MARKETING', or 'MERCHANTS', classify it as an 'Organisation'.\<newline>    - If an entity name is followed by '(HUF)', classify it as a 'Name' and include '(HUF)' in the entityName.\<newline>    - For all other cases, classify the entity as a 'Name'.\<newline>    Ensure every PAN in the document is extracted along with its corresponding entity.\<newline>\<newline>    Document Text:\<newline>    ---\<newline>    ''
     @ text' @ js ''\<newline>    ---\<newline>  ''"

text \<open>The four messages of the function.\<close>

definition emptyError :: string where
  "emptyError = ''AI returned an empty response.''"

definition notArrayError :: string where
  "notArrayError = ''AI response is not in the expected array format.''"

definition malformedError :: string where
  "malformedError = ''Failed to parse the AI's response. The data may be malformed.''"

definition serviceError :: string where
  "serviceError =
     ''Failed to extract entities from the document. The AI model returned an error.''"

text \<open>The body of the \<open>try\<close> block: what it returns or throws.\<close>

definition extract_try :: "(jstring \<Rightarrow> api_outcome) \<Rightarrow> jstring \<Rightarrow> js_error + json list" where
  "extract_try generateContent text' =
     (case generateContent (prompt text') of
        Rejects \<Rightarrow> Inl ApiError
      | Resolves None \<Rightarrow> Inl TypeError
      | Resolves (Some response_text) \<Rightarrow>
          (let jsonResponse = trim response_text
           in if jsonResponse = [] then Inl (Error emptyError)
              else
                (case JSON_parse jsonResponse of
                   None \<Rightarrow> Inl SyntaxError
                 | Some parsedData \<Rightarrow>
                     (case parsedData of
                        JArray elements \<Rightarrow> Inr elements
                      | _ \<Rightarrow> Inl (Error notArrayError)))))"

text \<open>The \<open>catch\<close> block: whatever was thrown, one of two messages leaves the function.\<close>

definition extractEntitiesFromText ::
    "(jstring \<Rightarrow> api_outcome) \<Rightarrow> jstring \<Rightarrow> string + json list" where
  "extractEntitiesFromText generateContent text' =
     (case extract_try generateContent text' of
        Inr parsedData \<Rightarrow> Inr parsedData
      | Inl SyntaxError \<Rightarrow> Inl malformedError
      | Inl _ \<Rightarrow> Inl serviceError)"

section \<open>Undoing the escape of the export\<close>

text \<open>Reading a text in which every quote was doubled: two quotes stand for one.\<close>

fun collapse_doubled :: "jstring \<Rightarrow> jstring" where
  "collapse_doubled (a # b # cs) =
     (if a = DQUOTE \<and> b = DQUOTE then DQUOTE # collapse_doubled cs
      else a # collapse_doubled (b # cs))"
| "collapse_doubled cs = cs"

section \<open>Example inputs\<close>

text \<open>A document of two pages; the first has an item of marked content between two texts.\<close>

definition ex_page1 :: pdf_page where
  "ex_page1 =
     \<lparr>getTextContent =
        Inr \<lparr>items = [TextItem (js ''Hello''), TextMarkedContent, TextItem (js ''World'')]\<rparr>\<rparr>"

definition ex_page2 :: pdf_page where
  "ex_page2 = \<lparr>getTextContent = Inr \<lparr>items = [TextItem (js ''Bye'')]\<rparr>\<rparr>"

definition ex_doc :: pdf_document where
  "ex_doc =
     \<lparr>numPages = 2,
      getPage = (\<lambda>i. if i = 1 then Inr ex_page1
                    else if i = 2 then Inr ex_page2
                    else Inl ''Invalid page request.'')\<rparr>"

definition ex_file :: input_file where
  "ex_file =
     \<lparr>ftype = js ''application/pdf'', ftext = Inr (js ''%PDF-1.7''), getDocument = Inr ex_doc\<rparr>"

section \<open>The invariant of an imported record\<close>

text \<open>
  A field is valid when it is not empty, holds no double quote and has no white space at
  either end.
\<close>

definition valid_field :: "jstring \<Rightarrow> bool" where
  "valid_field s \<longleftrightarrow> s \<noteq> [] \<and> DQUOTE \<notin> set s \<and> \<not> is_ws (hd s) \<and> \<not> is_ws (last s)"

text \<open>A plain field is a valid field without line terminators.\<close>

definition plain_field :: "jstring \<Rightarrow> bool" where
  "plain_field s \<longleftrightarrow> valid_field s \<and> list_all (\<lambda>c. \<not> is_line_terminator c) s"

section \<open>The shape of an extracted record\<close>

text \<open>An element carries the four fields when it is an object with these four keys.\<close>

definition has_all_fields :: "json \<Rightarrow> bool" where
  "has_all_fields v =
     (case v of
        JObject ms \<Rightarrow>
          js ''pan'' \<in> set (map fst ms) \<and> js ''relation'' \<in> set (map fst ms)
          \<and> js ''entityName'' \<in> set (map fst ms) \<and> js ''entityType'' \<in> set (map fst ms)
      | _ \<Rightarrow> False)"

section \<open>Properties of the reconciliation\<close>

lemma matches_eq: "matches (compareEntities ai gt) = filter (\<lambda>d. pan d \<in> pan ` set gt) ai"
  by (simp add: compareEntities_def)

lemma aiOnly_eq: "aiOnly (compareEntities ai gt) = filter (\<lambda>d. pan d \<notin> pan ` set gt) ai"
  by (simp add: compareEntities_def)

lemma groundTruthOnly_eq:
  "groundTruthOnly (compareEntities ai gt) = filter (\<lambda>d. pan d \<notin> pan ` set ai) gt"
  by (simp add: compareEntities_def)

lemma pan_mem_iff: "(p \<in> pan ` S) = (\<exists>g \<in> S. pan g = p)"
  by force

lemma interleave_filter:
  "interleave (map P xs) (filter P xs) (filter (\<lambda>x. \<not> P x) xs) = xs"
  by (induction xs) auto

text \<open>
  C1.  The three buckets are decided by membership of the identifier alone: a record of
  the extracted list is in \<open>matches\<close> when some ground-truth record has the same
  identifier and in \<open>aiOnly\<close> otherwise; a ground-truth record is in
  \<open>groundTruthOnly\<close> when no extracted record has its identifier.  Nothing is
  deduplicated: as multisets, \<open>matches\<close> and \<open>aiOnly\<close> add up to the extracted list,
  and no record is in both.  Names and types of the ground truth do not matter.  On
  the example with extracted identifiers A, B and ground-truth identifiers B, C the
  buckets are [B], [A] and [C].
\<close>

theorem compare_partition:
  fixes ai gt :: "ExtractedEntity list"
  defines "r \<equiv> compareEntities ai gt"
  shows "matches r = filter (\<lambda>d. \<exists>g \<in> set gt. pan g = pan d) ai
       \<and> aiOnly r = filter (\<lambda>d. \<forall>g \<in> set gt. pan g \<noteq> pan d) ai
       \<and> groundTruthOnly r = filter (\<lambda>g. \<forall>d \<in> set ai. pan d \<noteq> pan g) gt
       \<and> mset (matches r) + mset (aiOnly r) = mset ai
       \<and> length (matches r) + length (aiOnly r) = length ai
       \<and> set (matches r) \<inter> set (aiOnly r) = {}
       \<and> (\<forall>gt'. map pan gt' = map pan gt \<longrightarrow>
             matches (compareEntities ai gt') = matches r
           \<and> aiOnly (compareEntities ai gt') = aiOnly r)
       \<and> (\<forall>ta tb.
            compareEntities
              [\<lparr>pan = js ''A'', relation = PAN_Of, entityName = js ''X'', entityType = Name\<rparr>,
               \<lparr>pan = js ''B'', relation = PAN_Of, entityName = js ''Y'', entityType = Organisation\<rparr>]
              [\<lparr>pan = js ''B'', relation = PAN_Of, entityName = js ''Y'', entityType = ta\<rparr>,
               \<lparr>pan = js ''C'', relation = PAN_Of, entityName = js ''Z'', entityType = tb\<rparr>]
            = \<lparr>matches =
                 [\<lparr>pan = js ''B'', relation = PAN_Of, entityName = js ''Y'', entityType = Organisation\<rparr>],
               aiOnly =
                 [\<lparr>pan = js ''A'', relation = PAN_Of, entityName = js ''X'', entityType = Name\<rparr>],
               groundTruthOnly =
                 [\<lparr>pan = js ''C'', relation = PAN_Of, entityName = js ''Z'', entityType = tb\<rparr>]\<rparr>)"
proof -
  have m: "matches r = filter (\<lambda>d. \<exists>g \<in> set gt. pan g = pan d) ai"
    unfolding r_def matches_eq pan_mem_iff by simp
  have a: "aiOnly r = filter (\<lambda>d. \<forall>g \<in> set gt. pan g \<noteq> pan d) ai"
    unfolding r_def aiOnly_eq pan_mem_iff by simp
  have g: "groundTruthOnly r = filter (\<lambda>g. \<forall>d \<in> set ai. pan d \<noteq> pan g) gt"
    unfolding r_def groundTruthOnly_eq pan_mem_iff by simp
  have ms: "mset (matches r) + mset (aiOnly r) = mset ai"
    unfolding r_def matches_eq aiOnly_eq by simp
  have len: "length (matches r) + length (aiOnly r) = length ai"
    using arg_cong [OF ms, of size] by simp
  have disj: "set (matches r) \<inter> set (aiOnly r) = {}"
    unfolding r_def matches_eq aiOnly_eq by auto
  have indep: "\<forall>gt'. map pan gt' = map pan gt \<longrightarrow>
             matches (compareEntities ai gt') = matches r
           \<and> aiOnly (compareEntities ai gt') = aiOnly r"
  proof (intro allI impI)
    fix gt' :: "ExtractedEntity list"
    assume "map pan gt' = map pan gt"
    then have "set (map pan gt') = set (map pan gt)" by simp
    then have "pan ` set gt' = pan ` set gt" by simp
    then show "matches (compareEntities ai gt') = matches r
           \<and> aiOnly (compareEntities ai gt') = aiOnly r"
      unfolding r_def matches_eq aiOnly_eq by simp
  qed
  have ex: "\<forall>ta tb.
            compareEntities
              [\<lparr>pan = js ''A'', relation = PAN_Of, entityName = js ''X'', entityType = Name\<rparr>,
               \<lparr>pan = js ''B'', relation = PAN_Of, entityName = js ''Y'', entityType = Organisation\<rparr>]
              [\<lparr>pan = js ''B'', relation = PAN_Of, entityName = js ''Y'', entityType = ta\<rparr>,
               \<lparr>pan = js ''C'', relation = PAN_Of, entityName = js ''Z'', entityType = tb\<rparr>]
            = \<lparr>matches =
                 [\<lparr>pan = js ''B'', relation = PAN_Of, entityName = js ''Y'', entityType = Organisation\<rparr>],
               aiOnly =
                 [\<lparr>pan = js ''A'', relation = PAN_Of, entityName = js ''X'', entityType = Name\<rparr>],
               groundTruthOnly =
                 [\<lparr>pan = js ''C'', relation = PAN_Of, entityName = js ''Z'', entityType = tb\<rparr>]\<rparr>"
    by (simp add: compareEntities_def js_def)
  from m a g ms len disj indep ex show ?thesis by blast
qed

theorem compare_partition_witness:
  "(let ai = [\<lparr>pan = js ''A'', relation = PAN_Of, entityName = js ''X'', entityType = Name\<rparr>,
              \<lparr>pan = js ''B'', relation = PAN_Of, entityName = js ''Y'', entityType = Organisation\<rparr>,
              \<lparr>pan = js ''B'', relation = PAN_Of, entityName = js ''Y2'', entityType = Name\<rparr>];
        gt = [\<lparr>pan = js ''B'', relation = PAN_Of, entityName = js ''Q'', entityType = Name\<rparr>,
              \<lparr>pan = js ''b'', relation = PAN_Of, entityName = js ''X'', entityType = Name\<rparr>];
        r = compareEntities ai gt
    in matches r = [ai ! 1, ai ! 2] \<and> aiOnly r = [ai ! 0] \<and> groundTruthOnly r = [gt ! 1]
       \<and> length (matches r) + length (aiOnly r) = 3
       \<and> matches (compareEntities ai [\<lparr>pan = js ''B'', relation = PAN_Of, entityName = js ''other'', entityType = Organisation\<rparr>,
              \<lparr>pan = js ''b'', relation = PAN_Of, entityName = [], entityType = Organisation\<rparr>]) = matches r)"
  using compare_partition
    [of "[\<lparr>pan = js ''A'', relation = PAN_Of, entityName = js ''X'', entityType = Name\<rparr>,
              \<lparr>pan = js ''B'', relation = PAN_Of, entityName = js ''Y'', entityType = Organisation\<rparr>,
              \<lparr>pan = js ''B'', relation = PAN_Of, entityName = js ''Y2'', entityType = Name\<rparr>]"
        "[\<lparr>pan = js ''B'', relation = PAN_Of, entityName = js ''Q'', entityType = Name\<rparr>,
              \<lparr>pan = js ''b'', relation = PAN_Of, entityName = js ''X'', entityType = Name\<rparr>]"]
  by (simp add: Let_def js_def)

text \<open>
  C10.  The buckets hold the records of the inputs, in the order of the inputs:
  \<open>matches\<close> and \<open>aiOnly\<close> are subsequences of the extracted list that restore it when
  interleaved by original position, and \<open>groundTruthOnly\<close> is a subsequence of the
  ground truth.
\<close>

theorem compare_preserves_order:
  "interleave (map (\<lambda>d. pan d \<in> pan ` set gt) ai)
       (matches (compareEntities ai gt)) (aiOnly (compareEntities ai gt)) = ai
   \<and> subseq (matches (compareEntities ai gt)) ai
   \<and> subseq (aiOnly (compareEntities ai gt)) ai
   \<and> subseq (groundTruthOnly (compareEntities ai gt)) gt"
  unfolding matches_eq aiOnly_eq groundTruthOnly_eq
  by (simp add: interleave_filter)

lemma join_cons_map:
  "join sep (h # map f rs) = h @ concat (map (\<lambda>r. sep @ f r) rs)"
  by (induction rs arbitrary: h) auto

lemma set_join: "set (join sep xs) \<subseteq> set sep \<union> \<Union> (set ` set xs)"
  by (induction sep xs rule: join.induct) auto

lemma split_on_append:
  "sep \<notin> set x \<Longrightarrow> split_on sep (x @ sep # rest) = x # split_on sep rest"
  by (induction x) auto

lemma split_on_blocks:
  "\<forall>x \<in> set xs. sep \<notin> set x \<Longrightarrow>
     split_on sep (concat (map (\<lambda>x. x @ [sep]) xs)) = xs @ [[]]"
  by (induction xs) (auto simp: split_on_append)

lemma collapse_double_quotes: "collapse_doubled (double_quotes n) = n"
proof (induction n)
  case Nil
  show ?case by (simp add: double_quotes_def)
next
  case (Cons c n)
  show ?case
  proof (cases "c = DQUOTE")
    case True
    with Cons show ?thesis by (simp add: double_quotes_def)
  next
    case False
    have step: "collapse_doubled (c # ys) = c # collapse_doubled ys" for ys
      using False by (cases ys) auto
    from Cons False show ?thesis by (simp add: double_quotes_def step)
  qed
qed

lemma count_double_quotes:
  "length (filter (\<lambda>c. c = DQUOTE) (double_quotes n)) = 2 * length (filter (\<lambda>c. c = DQUOTE) n)"
  by (induction n) (auto simp: double_quotes_def)

lemma csvRow_eq:
  "csvRow r = DQUOTE # pan r @ [DQUOTE, COMMA, DQUOTE] @ js ''PAN_Of'' @ [DQUOTE, COMMA, DQUOTE]
          @ double_quotes (entityName r) @ [DQUOTE, COMMA, DQUOTE]
          @ entityType_label (entityType r) @ [DQUOTE]"
  by (cases "relation r") (simp add: csvRow_def quoted_def relation_label_def)

lemma header_eq: "join [COMMA] csvHeaders = js ''PAN,Relation,Entity Name,Entity Type''"
  by (simp add: csvHeaders_def js_def COMMA_def)

lemma csvContent_eq:
  "csvContent rs = js ''PAN,Relation,Entity Name,Entity Type'' @ concat (map (\<lambda>r. LF # csvRow r) rs)"
  by (simp add: csvContent_def join_cons_map header_eq)

lemma csvContent_last: "csvContent rs \<noteq> [] \<and> last (csvContent rs) \<noteq> LF"
proof (cases rs rule: rev_cases)
  case Nil
  then show ?thesis by (simp add: csvContent_eq js_def LF_def)
next
  case (snoc ys y)
  then show ?thesis by (simp add: csvContent_eq csvRow_eq DQUOTE_def LF_def)
qed

text \<open>
  C8.  The exported text is the header line \<open>PAN,Relation,Entity Name,Entity Type\<close> and
  then, for each record in the order of the input, a line feed and the row of its four
  values, each between double quotes whatever it holds; the text does not end with a
  line feed.  In the entity name each double quote is written twice, which loses
  nothing: collapsing the pairs gives the name back.
\<close>

theorem csvContent_format:
  "csvContent rs =
     js ''PAN,Relation,Entity Name,Entity Type'' @
     concat (map (\<lambda>r. LF # DQUOTE # pan r @ [DQUOTE, COMMA, DQUOTE] @ js ''PAN_Of''
                        @ [DQUOTE, COMMA, DQUOTE] @ double_quotes (entityName r)
                        @ [DQUOTE, COMMA, DQUOTE] @ entityType_label (entityType r)
                        @ [DQUOTE]) rs)
   \<and> csvContent rs \<noteq> [] \<and> last (csvContent rs) \<noteq> LF
   \<and> handleDownloadCsv (Some rs) = Some (csvContent rs)
   \<and> (\<forall>n. collapse_doubled (double_quotes n) = n
          \<and> length (filter (\<lambda>c. c = DQUOTE) (double_quotes n))
              = 2 * length (filter (\<lambda>c. c = DQUOTE) n))"
  using csvContent_last [of rs]
  by (simp add: csvContent_eq csvRow_eq collapse_double_quotes count_double_quotes
      handleDownloadCsv_def)

lemma readPages_eq:
  assumes ok: "\<forall>i. 1 \<le> i \<and> i \<le> numPages doc \<longrightarrow>
                 getPage doc i = Inr (pg i) \<and> getTextContent (pg i) = Inr (ct i)"
  shows "1 \<le> i \<Longrightarrow> readPages doc i acc =
           Inr (acc @ concat (map (\<lambda>i. pageText (ct i) @ [LF]) [i ..< Suc (numPages doc)]))"
proof (induction "Suc (numPages doc) - i" arbitrary: i acc)
  case 0
  then have "\<not> i \<le> numPages doc" by simp
  then show ?case by (subst readPages.simps) simp
next
  case (Suc k)
  then have le: "i \<le> numPages doc" by simp
  with Suc.prems ok have pg: "getPage doc i = Inr (pg i)" "getTextContent (pg i) = Inr (ct i)"
    by auto
  have k: "k = Suc (numPages doc) - Suc i" using Suc.hyps(2) by simp
  have ih: "readPages doc (Suc i) (acc @ pageText (ct i) @ [LF]) =
      Inr ((acc @ pageText (ct i) @ [LF]) @
        concat (map (\<lambda>i. pageText (ct i) @ [LF]) [Suc i ..< Suc (numPages doc)]))"
    by (rule Suc.hyps(1) [OF k]) simp
  have upt: "[i ..< Suc (numPages doc)] = i # [Suc i ..< Suc (numPages doc)]"
    using le by (simp add: upt_conv_Cons)
  have "readPages doc i acc = readPages doc (Suc i) (acc @ pageText (ct i) @ [LF])"
    by (subst readPages.simps) (simp add: le pg)
  then show ?case
    unfolding ih upt by simp
qed

lemma pageText_no_LF:
  "\<forall>it \<in> set (items c). LF \<notin> set (item_str it) \<Longrightarrow> LF \<notin> set (pageText c)"
  using set_join [of "[SPACE]" "map item_str (items c)"]
  by (auto simp: pageText_def LF_def SPACE_def)

text \<open>
  C7.  For a PDF whose pages 1 to N can all be read, the text is the concatenation, for
  the pages in this order, of the page's fragments joined by one space and followed by
  one line feed (an item without text counts as the empty fragment).  When no fragment
  holds a line feed, the text has exactly N line feeds and cutting it at them gives the
  N page texts in order.
\<close>

theorem readFileContent_pdf:
  assumes "ftype f = js ''application/pdf''"
    and "getDocument f = Inr doc"
    and "\<forall>i. 1 \<le> i \<and> i \<le> numPages doc \<longrightarrow>
           getPage doc i = Inr (pg i) \<and> getTextContent (pg i) = Inr (ct i)"
  shows "readFileContent f =
           Inr (concat (map (\<lambda>i. join [SPACE] (map item_str (items (ct i))) @ [LF])
                          [1 ..< Suc (numPages doc)]))
       \<and> ((\<forall>i. 1 \<le> i \<and> i \<le> numPages doc \<longrightarrow>
              (\<forall>it \<in> set (items (ct i)). LF \<notin> set (item_str it))) \<longrightarrow>
            (\<exists>out. readFileContent f = Inr out
               \<and> length (filter (\<lambda>c. c = LF) out) = numPages doc
               \<and> split_on LF out =
                   map (\<lambda>i. join [SPACE] (map item_str (items (ct i)))) [1 ..< Suc (numPages doc)]
                   @ [[]]))"
proof -
  let ?blocks = "map (\<lambda>i. pageText (ct i)) [1 ..< Suc (numPages doc)]"
  have ne: "ftype f \<noteq> js ''text/plain''"
    using assms(1) by (simp add: js_def)
  have r: "readFileContent f = Inr (concat (map (\<lambda>x. x @ [LF]) ?blocks))"
    using readPages_eq [OF assms(3), of 1 "[]"] assms(1,2) ne
    by (simp add: readFileContent_def map_map comp_def del: upt_Suc)
  have a: "readFileContent f =
           Inr (concat (map (\<lambda>i. join [SPACE] (map item_str (items (ct i))) @ [LF])
                          [1 ..< Suc (numPages doc)]))"
    using r by (simp add: pageText_def map_map comp_def del: upt_Suc)
  have b: "\<exists>out. readFileContent f = Inr out
               \<and> length (filter (\<lambda>c. c = LF) out) = numPages doc
               \<and> split_on LF out =
                   map (\<lambda>i. join [SPACE] (map item_str (items (ct i)))) [1 ..< Suc (numPages doc)]
                   @ [[]]"
    if h: "\<forall>i. 1 \<le> i \<and> i \<le> numPages doc \<longrightarrow>
              (\<forall>it \<in> set (items (ct i)). LF \<notin> set (item_str it))"
  proof -
    have nl: "\<forall>x \<in> set ?blocks. LF \<notin> set x"
      using h pageText_no_LF by auto
    have sp: "split_on LF (concat (map (\<lambda>x. x @ [LF]) ?blocks)) = ?blocks @ [[]]"
      by (rule split_on_blocks [OF nl])
    have cnt: "length (filter (\<lambda>c. c = LF) (concat (map (\<lambda>x. x @ [LF]) xs))) = length xs"
      if "\<forall>x \<in> set xs. LF \<notin> set x" for xs :: "jstring list"
      using that by (induction xs) (auto simp: filter_empty_conv)
    have "length (filter (\<lambda>c. c = LF) (concat (map (\<lambda>x. x @ [LF]) ?blocks))) = numPages doc"
      using cnt [OF nl] by simp
    with r sp show ?thesis by (simp add: pageText_def map_map comp_def del: upt_Suc)
  qed
  from a b show ?thesis by blast
qed

theorem readFileContent_pdf_witness:
  "readFileContent ex_file = Inr (js ''Hello  World\<newline>Bye\<newline>'')
   \<and> (\<exists>out. readFileContent ex_file = Inr out
          \<and> length (filter (\<lambda>c. c = LF) out) = 2
          \<and> split_on LF out = [js ''Hello  World'', js ''Bye'', []])"
proof -
  let ?ct = "\<lambda>i::nat. if i = 1
               then \<lparr>items = [TextItem (js ''Hello''), TextMarkedContent, TextItem (js ''World'')]\<rparr>
               else \<lparr>items = [TextItem (js ''Bye'')]\<rparr>"
  have 1: "ftype ex_file = js ''application/pdf''" by (simp add: ex_file_def)
  have 2: "getDocument ex_file = Inr ex_doc" by (simp add: ex_file_def)
  have 3: "\<forall>i. 1 \<le> i \<and> i \<le> numPages ex_doc \<longrightarrow>
           getPage ex_doc i = Inr ((\<lambda>i. if i = 1 then ex_page1 else ex_page2) i)
         \<and> getTextContent ((\<lambda>i. if i = 1 then ex_page1 else ex_page2) i) = Inr (?ct i)"
    by (auto simp: ex_doc_def ex_page1_def ex_page2_def)
  have 4: "[1 ..< Suc (numPages ex_doc)] = [1, 2]"
    by (simp add: ex_doc_def upt_rec)
  have 5: "\<forall>i. 1 \<le> i \<and> i \<le> numPages ex_doc \<longrightarrow>
              (\<forall>it \<in> set (items (?ct i)). LF \<notin> set (item_str it))"
    by (auto simp: item_str_def js_def LF_def)
  have 6: "numPages ex_doc = 2" by (simp add: ex_doc_def)
  note inst = readFileContent_pdf [OF 1 2 3]
  from inst have a: "readFileContent ex_file = Inr (js ''Hello  World\<newline>Bye\<newline>'')"
    unfolding 4 by (simp add: item_str_def js_def SPACE_def LF_def)
  from inst 5 have "\<exists>out. readFileContent ex_file = Inr out
               \<and> length (filter (\<lambda>c. c = LF) out) = numPages ex_doc
               \<and> split_on LF out =
                   map (\<lambda>i. join [SPACE] (map item_str (items (?ct i)))) [1 ..< Suc (numPages ex_doc)]
                   @ [[]]"
    by blast
  then have b: "\<exists>out. readFileContent ex_file = Inr out
          \<and> length (filter (\<lambda>c. c = LF) out) = 2
          \<and> split_on LF out = [js ''Hello  World'', js ''Bye'', []]"
    unfolding 6 by (simp add: item_str_def js_def SPACE_def upt_rec)
  from a b show ?thesis by blast
qed

lemma indexOf_from_range: "indexOf_from xs x i = - 1 \<or> i \<le> indexOf_from xs x i"
  by (induction xs x i rule: indexOf_from.induct) auto

lemma indexOf_from_absent: "0 \<le> i \<Longrightarrow> (indexOf_from xs x i = - 1) = (x \<notin> set xs)"
proof (induction xs x i rule: indexOf_from.induct)
  case (1 x i)
  then show ?case by simp
next
  case (2 y ys x i)
  then show ?case by auto
qed

lemma indexOf_absent: "(indexOf xs x = - 1) = (x \<notin> set xs)"
  by (simp add: indexOf_def indexOf_from_absent)

lemma parseCsv_short: "length (split_lines (trim t)) < 2 \<Longrightarrow> parseCsv t = Inr []"
  by (simp add: parseCsv_def Let_def)

lemma parseCsv_long:
  "2 \<le> length (split_lines (trim t)) \<Longrightarrow>
   parseCsv t =
     (let headers = headersOf (hd (split_lines (trim t)))
      in if js ''PAN'' \<notin> set headers \<or> js ''Entity Name'' \<notin> set headers
            \<or> js ''Entity Type'' \<notin> set headers
         then Inl csvError
         else Inr (parseRows (indexOf headers (js ''PAN'')) (indexOf headers (js ''Entity Name''))
                     (indexOf headers (js ''Entity Type'')) (tl (split_lines (trim t))) []))"
  by (simp add: parseCsv_def Let_def indexOf_absent)

text \<open>
  C4 (as amended).  The import fails exactly when the trimmed text has at least two lines
  and one of the three names PAN, Entity Name, Entity Type is not among the header
  cells (trimmed, quotes removed).  The error is always the same message, which lists
  all three names.  A text of fewer than two lines gives the empty list, and among
  texts of two lines or more with the same header line the data rows never decide
  whether the import fails.
\<close>

theorem parseCsv_fails_iff:
  "((\<exists>e. parseCsv t = Inl e) \<longleftrightarrow>
      2 \<le> length (split_lines (trim t))
      \<and> \<not> {js ''PAN'', js ''Entity Name'', js ''Entity Type''}
             \<subseteq> set (headersOf (hd (split_lines (trim t)))))
   \<and> (\<forall>e. parseCsv t = Inl e \<longrightarrow> e = csvError)
   \<and> (length (split_lines (trim t)) < 2 \<longrightarrow> parseCsv t = Inr [])
   \<and> (\<forall>t'. 2 \<le> length (split_lines (trim t)) \<and> 2 \<le> length (split_lines (trim t'))
            \<and> hd (split_lines (trim t')) = hd (split_lines (trim t))
          \<longrightarrow> ((\<exists>e. parseCsv t' = Inl e) \<longleftrightarrow> (\<exists>e. parseCsv t = Inl e)))"
proof -
  have iff: "(\<exists>e. parseCsv u = Inl e) \<longleftrightarrow>
      2 \<le> length (split_lines (trim u))
      \<and> \<not> {js ''PAN'', js ''Entity Name'', js ''Entity Type''}
             \<subseteq> set (headersOf (hd (split_lines (trim u))))" for u
  proof (cases "2 \<le> length (split_lines (trim u))")
    case True
    then show ?thesis by (auto simp: parseCsv_long Let_def)
  next
    case False
    then show ?thesis by (simp add: parseCsv_short)
  qed
  have msg: "\<forall>e. parseCsv t = Inl e \<longrightarrow> e = csvError"
    by (auto simp: parseCsv_def Let_def split: if_splits)
  have short: "length (split_lines (trim t)) < 2 \<longrightarrow> parseCsv t = Inr []"
    by (simp add: parseCsv_short)
  have indep: "\<forall>t'. 2 \<le> length (split_lines (trim t)) \<and> 2 \<le> length (split_lines (trim t'))
            \<and> hd (split_lines (trim t')) = hd (split_lines (trim t))
          \<longrightarrow> ((\<exists>e. parseCsv t' = Inl e) \<longleftrightarrow> (\<exists>e. parseCsv t = Inl e))"
    unfolding iff by simp
  from iff [of t] msg short indep show ?thesis by blast
qed

theorem parseCsv_fails_iff_witness:
  "(\<exists>e. parseCsv (js ''PAN,Entity Name\<newline>ABCDE1234F,Acme'') = Inl e)
   \<and> parseCsv (js ''PAN,Entity Name\<newline>ABCDE1234F,Acme'') = Inl csvError
   \<and> parseCsv (js ''PAN,Entity Name'') = Inr []"
proof -
  let ?t = "js ''PAN,Entity Name\<newline>ABCDE1234F,Acme''"
  have l: "split_lines (trim ?t) = [js ''PAN,Entity Name'', js ''ABCDE1234F,Acme'']"
    by (simp add: trim_def js_def is_ws_def LF_def CR_def)
  have h: "headersOf (js ''PAN,Entity Name'') = [js ''PAN'', js ''Entity Name'']"
    by (simp add: headersOf_def js_def COMMA_def trim_def is_ws_def remove_quotes_def DQUOTE_def)
  have a: "2 \<le> length (split_lines (trim ?t))
      \<and> \<not> {js ''PAN'', js ''Entity Name'', js ''Entity Type''}
             \<subseteq> set (headersOf (hd (split_lines (trim ?t))))"
    unfolding l by (simp add: h) (simp add: js_def)
  have s: "length (split_lines (trim (js ''PAN,Entity Name''))) < 2"
    by (simp add: trim_def js_def is_ws_def LF_def CR_def)
  from parseCsv_fails_iff [of ?t] a have e: "\<exists>e. parseCsv ?t = Inl e" by blast
  with parseCsv_fails_iff [of ?t] have m: "parseCsv ?t = Inl csvError" by blast
  from parseCsv_fails_iff [of "js ''PAN,Entity Name''"] s
  have "parseCsv (js ''PAN,Entity Name'') = Inr []" by blast
  with e m show ?thesis by blast
qed

text \<open>
  A text without the Entity Type header and a text without the PAN header fail with the
  same error, so the error does not say which name is absent; and a text of one line
  without the Entity Type header does not fail.
\<close>

theorem parseCsv_error_counterexample:
  "parseCsv (js ''PAN,Entity Name\<newline>ABCDE1234F,Acme'') = Inl csvError
   \<and> parseCsv (js ''Entity Name,Entity Type\<newline>Acme,Organisation'') = Inl csvError
   \<and> parseCsv (js ''PAN,Entity Name'') = Inr []
   \<and> js ''Entity Type'' \<notin> set (headersOf (js ''PAN,Entity Name''))"
  by (simp add: parseCsv_def Let_def trim_def js_def is_ws_def LF_def CR_def headersOf_def
      COMMA_def DQUOTE_def remove_quotes_def indexOf_def)

section \<open>Properties of the field pattern\<close>

text \<open>A match is never empty and never longer than the text, so the search goes on from its end.\<close>

lemma lazy_quoted_bounds: "lazy_quoted cs = Some k \<Longrightarrow> 1 \<le> k \<and> k \<le> length cs"
  by (induction cs arbitrary: k) (auto split: if_split_asm)

lemma greedy_bare_bounds: "greedy_bare s = Some k \<Longrightarrow> 1 \<le> k \<and> k \<le> length s"
proof -
  assume "greedy_bare s = Some k"
  then have "k \<in> set (rev [1 ..< Suc (length (takeWhile (\<lambda>c. c \<noteq> DQUOTE \<and> c \<noteq> COMMA) s))])"
    unfolding greedy_bare_def Let_def find_Some_iff by (metis nth_mem)
  then have "1 \<le> k \<and> k \<le> length (takeWhile (\<lambda>c. c \<noteq> DQUOTE \<and> c \<noteq> COMMA) s)"
    by auto
  then show ?thesis
    using length_takeWhile_le [of "\<lambda>c. c \<noteq> DQUOTE \<and> c \<noteq> COMMA" s] by simp
qed

lemma match_at_bounds: "match_at s = Some n \<Longrightarrow> 1 \<le> n \<and> n \<le> length s"
  by (auto simp: match_at_def split: list.split_asm if_split_asm option.split_asm
      dest!: lazy_quoted_bounds greedy_bare_bounds)

lemma match_all_step:
  "match_at (c # cs) = Some n \<Longrightarrow>
   match_all (c # cs) = take n (c # cs) # match_all (drop n (c # cs))"
  using match_at_bounds [of "c # cs" n] by (cases n) simp_all

lemma row_fields:
  \<open>match_all (js ''"Acme, Inc.",ABCDE1234F,Organisation'')
     = [js ''"Acme, Inc."'', js ''ABCDE1234F'', js ''Organisation'']\<close>
  by (simp add: js_def match_at_def greedy_bare_def lookahead_def is_ws_def
      is_line_terminator_def DQUOTE_def COMMA_def upt_rec)

lemma row_entity:
  \<open>parseRow 1 0 2 (js ''"Acme, Inc.",ABCDE1234F,Organisation'')
     = \<lparr>pan = js ''ABCDE1234F'', relation = PAN_Of, entityName = js ''Acme, Inc.'',
        entityType = Organisation\<rparr>\<close>
  unfolding parseRow_def row_fields
  by (simp add: at_def remove_quotes_def trim_def js_def is_ws_def DQUOTE_def)

text \<open>
  C6.  Whenever the lines of the text are a header with Entity Name, PAN and Entity Type
  in the first, second and third cell and the row \<open>"Acme, Inc.",ABCDE1234F,Organisation\<close>,
  the row is cut into exactly three fields, the first keeping its comma, and the import
  returns the one record with name \<open>Acme, Inc.\<close> (quotes removed), identifier
  \<open>ABCDE1234F\<close> and type Organisation.
\<close>

theorem parseCsv_quoted_comma:
  assumes \<open>split_lines (trim t) = [h, js ''"Acme, Inc.",ABCDE1234F,Organisation'']\<close>
    and "indexOf (headersOf h) (js ''Entity Name'') = 0"
    and "indexOf (headersOf h) (js ''PAN'') = 1"
    and "indexOf (headersOf h) (js ''Entity Type'') = 2"
  shows \<open>match_all (js ''"Acme, Inc.",ABCDE1234F,Organisation'')
           = [js ''"Acme, Inc."'', js ''ABCDE1234F'', js ''Organisation'']
       \<and> map remove_quotes (match_all (js ''"Acme, Inc.",ABCDE1234F,Organisation''))
           = [js ''Acme, Inc.'', js ''ABCDE1234F'', js ''Organisation'']
       \<and> parseCsv t =
           Inr [\<lparr>pan = js ''ABCDE1234F'', relation = PAN_Of, entityName = js ''Acme, Inc.'',
                 entityType = Organisation\<rparr>]\<close>
proof -
  have v: \<open>map remove_quotes (match_all (js ''"Acme, Inc.",ABCDE1234F,Organisation''))
           = [js ''Acme, Inc.'', js ''ABCDE1234F'', js ''Organisation'']\<close>
    unfolding row_fields by (simp add: remove_quotes_def js_def DQUOTE_def)
  have p: \<open>parseCsv t =
           Inr [\<lparr>pan = js ''ABCDE1234F'', relation = PAN_Of, entityName = js ''Acme, Inc.'',
                 entityType = Organisation\<rparr>]\<close>
  proof -
    have ne: "js ''ABCDE1234F'' \<noteq> []" "js ''Acme, Inc.'' \<noteq> []"
      by (simp_all add: js_def)
    show ?thesis
      using assms by (simp add: parseCsv_def Let_def row_entity ne)
  qed
  from row_fields v p show ?thesis by blast
qed

theorem parseCsv_quoted_comma_witness:
  \<open>parseCsv (js ''Entity Name,PAN,Entity Type\<newline>"Acme, Inc.",ABCDE1234F,Organisation'') =
           Inr [\<lparr>pan = js ''ABCDE1234F'', relation = PAN_Of, entityName = js ''Acme, Inc.'',
                 entityType = Organisation\<rparr>]\<close>
proof -
  let ?t = \<open>js ''Entity Name,PAN,Entity Type\<newline>"Acme, Inc.",ABCDE1234F,Organisation''\<close>
  have 1: \<open>split_lines (trim ?t) = [js ''Entity Name,PAN,Entity Type'', js ''"Acme, Inc.",ABCDE1234F,Organisation'']\<close>
    by (simp add: trim_def js_def is_ws_def LF_def CR_def)
  have h: "headersOf (js ''Entity Name,PAN,Entity Type'') = [js ''Entity Name'', js ''PAN'', js ''Entity Type'']"
    by (simp add: headersOf_def js_def COMMA_def trim_def is_ws_def remove_quotes_def DQUOTE_def)
  have 2: "indexOf (headersOf (js ''Entity Name,PAN,Entity Type'')) (js ''Entity Name'') = 0"
    unfolding h by (simp add: indexOf_def js_def)
  have 3: "indexOf (headersOf (js ''Entity Name,PAN,Entity Type'')) (js ''PAN'') = 1"
    unfolding h by (simp add: indexOf_def js_def)
  have 4: "indexOf (headersOf (js ''Entity Name,PAN,Entity Type'')) (js ''Entity Type'') = 2"
    unfolding h by (simp add: indexOf_def js_def)
  from parseCsv_quoted_comma [OF 1 2 3 4] show ?thesis by blast
qed

lemma set_trim: "set (trim s) \<subseteq> set s"
proof -
  have "set (trim s) \<subseteq> set (dropWhile is_ws s)"
    using set_dropWhileD [of _ is_ws "rev (dropWhile is_ws s)"] by (auto simp: trim_def)
  also have "\<dots> \<subseteq> set s"
    using set_dropWhileD [of _ is_ws s] by auto
  finally show ?thesis .
qed

lemma trim_last: "trim s \<noteq> [] \<Longrightarrow> \<not> is_ws (last (trim s))"
  by (simp add: trim_def last_rev hd_dropWhile)

lemma trim_hd: "trim s \<noteq> [] \<Longrightarrow> \<not> is_ws (hd (trim s))"
proof -
  assume ne: "trim s \<noteq> []"
  let ?u = "dropWhile is_ws s"
  let ?v = "dropWhile is_ws (rev ?u)"
  from ne have v: "?v \<noteq> []" by (simp add: trim_def)
  then have u: "?u \<noteq> []" by (metis dropWhile.simps(1) rev.simps(1))
  have "hd (trim s) = last ?v" by (simp add: trim_def hd_rev)
  also have "\<dots> = last (rev ?u)"
    using v by (metis append_self_conv2 last_appendR takeWhile_dropWhile_id)
  also have "\<dots> = hd ?u" by (simp add: last_rev)
  finally have "hd (trim s) = hd ?u" .
  moreover have "\<not> is_ws (hd ?u)" using u by (rule hd_dropWhile)
  ultimately show ?thesis by simp
qed

lemma trim_id: "s \<noteq> [] \<Longrightarrow> \<not> is_ws (hd s) \<Longrightarrow> \<not> is_ws (last s) \<Longrightarrow> trim s = s"
proof -
  assume s: "s \<noteq> []" and h: "\<not> is_ws (hd s)" and l: "\<not> is_ws (last s)"
  from s h have 1: "dropWhile is_ws s = s" by (cases s) auto
  from s l have 2: "dropWhile is_ws (rev s) = rev s"
    by (cases s rule: rev_cases) auto
  show ?thesis by (simp add: trim_def 1 2)
qed

lemma trim_remove_quotes: "DQUOTE \<notin> set (trim (remove_quotes v))"
  using set_trim [of "remove_quotes v"] by (auto simp: remove_quotes_def)

lemma at_mem: "at xs i = Some v \<Longrightarrow> v \<in> set xs"
  by (auto simp: at_def split: if_splits)

lemma parseRow_pan:
  "pan (parseRow p n t l) \<noteq> [] \<Longrightarrow> valid_field (pan (parseRow p n t l))"
  by (auto simp: parseRow_def Let_def valid_field_def trim_hd trim_last
      dest!: at_mem split: option.splits intro: trim_remove_quotes [THEN notE])

lemma parseRow_name:
  "entityName (parseRow p n t l) \<noteq> [] \<Longrightarrow> valid_field (entityName (parseRow p n t l))"
  by (auto simp: parseRow_def Let_def valid_field_def trim_hd trim_last
      dest!: at_mem split: option.splits intro: trim_remove_quotes [THEN notE])

lemma parseRows_valid:
  "\<forall>r \<in> set acc. valid_field (pan r) \<and> valid_field (entityName r) \<Longrightarrow>
   \<forall>r \<in> set (parseRows p n t ls acc). valid_field (pan r) \<and> valid_field (entityName r)"
proof (induction ls arbitrary: acc)
  case Nil
  then show ?case by simp
next
  case (Cons l ls)
  show ?case
    unfolding parseRows.simps Let_def
    by (rule Cons.IH) (use Cons.prems parseRow_pan parseRow_name in auto)
qed

text \<open>
  C9.  Every record the import returns has an identifier and a name that are not empty,
  hold no double quote and have no white space at either end (trimming them again
  changes nothing); its relation is the fixed tag and its type one of the two values.
\<close>

theorem parseCsv_records_valid:
  assumes "parseCsv t = Inr rs" and "r \<in> set rs"
  shows "pan r \<noteq> [] \<and> entityName r \<noteq> []
       \<and> DQUOTE \<notin> set (pan r) \<and> DQUOTE \<notin> set (entityName r)
       \<and> \<not> is_ws (hd (pan r)) \<and> \<not> is_ws (last (pan r))
       \<and> \<not> is_ws (hd (entityName r)) \<and> \<not> is_ws (last (entityName r))
       \<and> trim (pan r) = pan r \<and> trim (entityName r) = entityName r
       \<and> relation r = PAN_Of
       \<and> (entityType r = Organisation \<or> entityType r = Name)"
proof -
  have "\<forall>r \<in> set rs. valid_field (pan r) \<and> valid_field (entityName r)"
  proof (cases "length (split_lines (trim t)) < 2")
    case True
    with assms(1) show ?thesis by (simp add: parseCsv_def Let_def)
  next
    case False
    with assms(1) obtain p n ty where "rs = parseRows p n ty (tl (split_lines (trim t))) []"
      by (auto simp: parseCsv_def Let_def split: if_splits)
    then show ?thesis using parseRows_valid [of "[]"] by simp
  qed
  with assms(2) have v: "valid_field (pan r)" "valid_field (entityName r)" by auto
  have rel: "relation r = PAN_Of" by (cases "relation r") simp
  have ty: "entityType r = Organisation \<or> entityType r = Name"
    by (cases "entityType r") simp_all
  from v rel ty show ?thesis by (simp add: valid_field_def trim_id)
qed

theorem parseCsv_records_valid_witness:
  \<open>parseCsv (js ''Entity Type , "PAN",Entity Name\<newline>x," ""AB"" ", "Acme ""Inc""  "\<newline>,,'')
     = Inr [\<lparr>pan = js ''AB'', relation = PAN_Of, entityName = js ''Acme Inc'', entityType = Name\<rparr>]
   \<and> DQUOTE \<notin> set (js ''AB'') \<and> \<not> is_ws (hd (js ''Acme Inc''))\<close>
proof -
  let ?t = \<open>js ''Entity Type , "PAN",Entity Name\<newline>x," ""AB"" ", "Acme ""Inc""  "\<newline>,,''\<close>
  let ?r = "\<lparr>pan = js ''AB'', relation = PAN_Of, entityName = js ''Acme Inc'', entityType = Name\<rparr>"
  have 1: "parseCsv ?t = Inr [?r]"
    by (simp add: parseCsv_def Let_def trim_def js_def is_ws_def LF_def CR_def headersOf_def
      COMMA_def DQUOTE_def remove_quotes_def indexOf_def parseRow_def match_at_def
      greedy_bare_def lookahead_def is_line_terminator_def at_def upt_rec)
  have 2: "?r \<in> set [?r]" by simp
  from parseCsv_records_valid [OF 1 2] 1 show ?thesis by simp
qed

lemma lookahead_Nil: "lookahead []"
  by (simp add: lookahead_def)

lemma lookahead_comma: "lookahead (COMMA # rest)"
  by (simp add: lookahead_def is_ws_def COMMA_def)

lemma lazy_quoted_field:
  "DQUOTE \<notin> set f \<Longrightarrow> list_all (\<lambda>c. \<not> is_line_terminator c) f \<Longrightarrow> lookahead rest \<Longrightarrow>
   lazy_quoted (f @ DQUOTE # rest) = Some (Suc (length f))"
  by (induction f) auto

lemma match_at_quoted:
  "DQUOTE \<notin> set f \<Longrightarrow> list_all (\<lambda>c. \<not> is_line_terminator c) f \<Longrightarrow> lookahead rest \<Longrightarrow>
   match_at (DQUOTE # f @ DQUOTE # rest) = Some (Suc (Suc (length f)))"
  by (simp add: match_at_def lazy_quoted_field)

lemma match_at_comma: "match_at (COMMA # rest) = None"
  by (simp add: match_at_def greedy_bare_def COMMA_def DQUOTE_def)

lemma match_all_quoted_comma:
  assumes "DQUOTE \<notin> set f" and "list_all (\<lambda>c. \<not> is_line_terminator c) f"
  shows "match_all (quoted f @ COMMA # rest) = quoted f # match_all rest"
proof -
  have m: "match_at (DQUOTE # f @ DQUOTE # COMMA # rest) = Some (Suc (Suc (length f)))"
    by (rule match_at_quoted [OF assms lookahead_comma])
  have "match_all (DQUOTE # f @ DQUOTE # COMMA # rest)
        = (DQUOTE # f @ [DQUOTE]) # match_all (COMMA # rest)"
    by (subst match_all.simps) (simp add: m)
  also have "match_all (COMMA # rest) = match_all rest"
    by (subst match_all.simps) (simp add: match_at_comma)
  finally show ?thesis by (simp add: quoted_def)
qed

lemma match_all_quoted_end:
  assumes "DQUOTE \<notin> set f" and "list_all (\<lambda>c. \<not> is_line_terminator c) f"
  shows "match_all (quoted f) = [quoted f]"
proof -
  have m: "match_at (DQUOTE # f @ DQUOTE # []) = Some (Suc (Suc (length f)))"
    by (rule match_at_quoted [OF assms lookahead_Nil])
  have "match_all (DQUOTE # f @ [DQUOTE]) = [DQUOTE # f @ [DQUOTE]]"
    by (subst match_all.simps) (simp add: m)
  then show ?thesis by (simp add: quoted_def)
qed

lemma double_quotes_plain: "DQUOTE \<notin> set s \<Longrightarrow> double_quotes s = s"
  by (induction s) (auto simp: double_quotes_def)

lemma remove_quotes_quoted: "DQUOTE \<notin> set f \<Longrightarrow> remove_quotes (quoted f) = f"
  by (auto simp: remove_quotes_def quoted_def filter_id_conv)

lemma label_plain:
  "DQUOTE \<notin> set (js ''PAN_Of'')" "list_all (\<lambda>c. \<not> is_line_terminator c) (js ''PAN_Of'')"
  "DQUOTE \<notin> set (entityType_label ty)"
  "list_all (\<lambda>c. \<not> is_line_terminator c) (entityType_label ty)"
  by (cases ty; simp add: js_def DQUOTE_def is_line_terminator_def entityType_label_def)+

lemma trim_label:
  "trim (entityType_label ty) = entityType_label ty"
  by (cases ty; simp add: js_def trim_def is_ws_def entityType_label_def)

lemma label_Organisation: "(entityType_label ty = js ''Organisation'') = (ty = Organisation)"
  by (cases ty; simp add: js_def entityType_label_def)

lemma csvRow_plain:
  "DQUOTE \<notin> set (entityName r) \<Longrightarrow>
   csvRow r = quoted (pan r) @ COMMA # quoted (js ''PAN_Of'') @ COMMA # quoted (entityName r)
              @ COMMA # quoted (entityType_label (entityType r))"
  by (cases "relation r") (simp add: csvRow_def relation_label_def double_quotes_plain)

lemma match_all_csvRow:
  assumes "plain_field (pan r)" and "plain_field (entityName r)"
  shows "map remove_quotes (match_all (csvRow r)) =
         [pan r, js ''PAN_Of'', entityName r, entityType_label (entityType r)]"
proof -
  from assms have q: "DQUOTE \<notin> set (pan r)" "DQUOTE \<notin> set (entityName r)"
    and t: "list_all (\<lambda>c. \<not> is_line_terminator c) (pan r)"
           "list_all (\<lambda>c. \<not> is_line_terminator c) (entityName r)"
    by (simp_all add: plain_field_def valid_field_def)
  have "match_all (csvRow r) =
        [quoted (pan r), quoted (js ''PAN_Of''), quoted (entityName r),
         quoted (entityType_label (entityType r))]"
    unfolding csvRow_plain [OF q(2)]
    by (simp only: match_all_quoted_comma [OF q(1) t(1)]
        match_all_quoted_comma [OF label_plain(1,2)]
        match_all_quoted_comma [OF q(2) t(2)]
        match_all_quoted_end [OF label_plain(3,4)])
  then show ?thesis
    by (simp add: remove_quotes_quoted q label_plain)
qed


lemma record_eq:
  "r = \<lparr>pan = pan r, relation = PAN_Of, entityName = entityName r, entityType = entityType r\<rparr>"
  by (cases r, cases "relation r") simp

lemma parseRow_csvRow:
  assumes "plain_field (pan r)" and "plain_field (entityName r)"
  shows "parseRow 0 2 3 (csvRow r) = r"
proof -
  from assms have tp: "trim (pan r) = pan r" and tn: "trim (entityName r) = entityName r"
    by (simp_all add: plain_field_def valid_field_def trim_id)
  have "parseRow 0 2 3 (csvRow r) =
     \<lparr>pan = pan r, relation = PAN_Of, entityName = entityName r, entityType = entityType r\<rparr>"
    unfolding parseRow_def match_all_csvRow [OF assms]
    by (cases "entityType r") (simp_all add: at_def tp tn trim_label label_Organisation)
  then show ?thesis using record_eq [of r] by simp
qed

lemma parseRows_csvRows:
  "\<forall>r \<in> set rs. plain_field (pan r) \<and> plain_field (entityName r) \<Longrightarrow>
   parseRows 0 2 3 (map csvRow rs) acc = acc @ rs"
proof (induction rs arbitrary: acc)
  case Nil
  then show ?case by simp
next
  case (Cons r rs)
  then have p: "plain_field (pan r)" "plain_field (entityName r)" by simp_all
  then have ne: "pan r \<noteq> []" "entityName r \<noteq> []"
    by (simp_all add: plain_field_def valid_field_def)
  from Cons show ?case
    by (simp add: parseRow_csvRow [OF p] ne)
qed

lemma split_lines_line:
  "LF \<notin> set x \<Longrightarrow> CR \<notin> set x \<Longrightarrow> split_lines (x @ LF # rest) = x # split_lines rest"
  by (induction x) auto

lemma split_lines_single: "LF \<notin> set x \<Longrightarrow> CR \<notin> set x \<Longrightarrow> split_lines x = [x]"
  by (induction x) auto

lemma split_lines_rows:
  "LF \<notin> set h \<Longrightarrow> CR \<notin> set h \<Longrightarrow> \<forall>r \<in> set rs. LF \<notin> set (f r) \<and> CR \<notin> set (f r) \<Longrightarrow>
   split_lines (h @ concat (map (\<lambda>r. LF # f r) rs)) = h # map f rs"
proof (induction rs arbitrary: h)
  case Nil
  then show ?case by (simp add: split_lines_single)
next
  case (Cons r rs)
  then show ?case by (simp add: split_lines_line)
qed

lemma no_terminator:
  "list_all (\<lambda>c. \<not> is_line_terminator c) s \<Longrightarrow> LF \<notin> set s \<and> CR \<notin> set s"
  by (auto simp: list_all_iff is_line_terminator_def LF_def CR_def)

lemma csvRow_no_break:
  assumes "plain_field (pan r)" and "plain_field (entityName r)"
  shows "LF \<notin> set (csvRow r) \<and> CR \<notin> set (csvRow r)"
proof -
  from assms have q: "DQUOTE \<notin> set (entityName r)"
    by (simp add: plain_field_def valid_field_def)
  from assms have "LF \<notin> set (pan r) \<and> CR \<notin> set (pan r)"
    "LF \<notin> set (entityName r) \<and> CR \<notin> set (entityName r)"
    by (simp_all add: plain_field_def no_terminator)
  moreover have "LF \<notin> set (entityType_label (entityType r)) \<and> CR \<notin> set (entityType_label (entityType r))"
    by (rule no_terminator) (rule label_plain)
  moreover have "LF \<notin> set (js ''PAN_Of'') \<and> CR \<notin> set (js ''PAN_Of'')"
    by (rule no_terminator) (rule label_plain)
  ultimately show ?thesis
    unfolding csvRow_plain [OF q]
    by (simp add: quoted_def LF_def CR_def DQUOTE_def COMMA_def)
qed

lemma header_line:
  "LF \<notin> set (js ''PAN,Relation,Entity Name,Entity Type'')"
  "CR \<notin> set (js ''PAN,Relation,Entity Name,Entity Type'')"
  "headersOf (js ''PAN,Relation,Entity Name,Entity Type'') = csvHeaders"
  by (simp_all add: js_def LF_def CR_def headersOf_def COMMA_def trim_def is_ws_def
      remove_quotes_def DQUOTE_def csvHeaders_def)

lemma header_index:
  "indexOf csvHeaders (js ''PAN'') = 0"
  "indexOf csvHeaders (js ''Entity Name'') = 2"
  "indexOf csvHeaders (js ''Entity Type'') = 3"
  by (simp_all add: indexOf_def csvHeaders_def js_def)

lemma csvContent_trim: "trim (csvContent rs) = csvContent rs"
proof (rule trim_id)
  show "csvContent rs \<noteq> []" using csvContent_last [of rs] by simp
  show "\<not> is_ws (hd (csvContent rs))"
    by (simp add: csvContent_eq js_def is_ws_def)
  show "\<not> is_ws (last (csvContent rs))"
  proof (cases rs rule: rev_cases)
    case Nil
    then show ?thesis by (simp add: csvContent_eq js_def is_ws_def)
  next
    case (snoc ys y)
    then show ?thesis by (simp add: csvContent_eq csvRow_eq DQUOTE_def is_ws_def)
  qed
qed

text \<open>
  C3 (as amended).  When the identifier and the name of every record are not empty, hold
  no double quote and no line terminator, and have no white space at either end,
  importing the exported text gives the records back: the same identifiers, names and
  types in the same order (the relation is set by the import, to its only value).
\<close>

theorem csv_round_trip:
  assumes "\<forall>r \<in> set rs. plain_field (pan r) \<and> plain_field (entityName r)"
  shows "parseCsv (csvContent rs) = Inr rs
       \<and> (\<exists>rs'. parseCsv (csvContent rs) = Inr rs'
              \<and> map pan rs' = map pan rs
              \<and> map entityName rs' = map entityName rs
              \<and> map entityType rs' = map entityType rs)"
proof -
  have "parseCsv (csvContent rs) = Inr rs"
  proof (cases rs)
    case Nil
    have "split_lines (csvContent []) = [js ''PAN,Relation,Entity Name,Entity Type'']"
      by (simp add: csvContent_eq split_lines_single header_line)
    with Nil show ?thesis
      by (simp add: parseCsv_def csvContent_trim)
  next
    case (Cons r rs')
    have nb: "\<forall>r \<in> set rs. LF \<notin> set (csvRow r) \<and> CR \<notin> set (csvRow r)"
      using assms csvRow_no_break by blast
    have l: "split_lines (csvContent rs) =
             js ''PAN,Relation,Entity Name,Entity Type'' # map csvRow rs"
      unfolding csvContent_eq
      by (rule split_lines_rows [OF header_line(1,2) nb])
    have len: "\<not> length (split_lines (csvContent rs)) < 2"
      unfolding l using Cons by simp
    show ?thesis
      using len
      by (simp add: parseCsv_def csvContent_trim Let_def l header_line(3) header_index
          parseRows_csvRows [OF assms])
  qed
  then show ?thesis by simp
qed

theorem csv_round_trip_witness:
  "parseCsv (csvContent
      [\<lparr>pan = js ''ABCDE1234F'', relation = PAN_Of, entityName = js ''Acme, Inc. (HUF)'',
         entityType = Organisation\<rparr>,
       \<lparr>pan = js ''XYZAB9876K'', relation = PAN_Of, entityName = js ''R K Sharma'',
         entityType = Name\<rparr>])
   = Inr [\<lparr>pan = js ''ABCDE1234F'', relation = PAN_Of, entityName = js ''Acme, Inc. (HUF)'',
            entityType = Organisation\<rparr>,
          \<lparr>pan = js ''XYZAB9876K'', relation = PAN_Of, entityName = js ''R K Sharma'',
            entityType = Name\<rparr>]"
proof -
  let ?rs = "[\<lparr>pan = js ''ABCDE1234F'', relation = PAN_Of, entityName = js ''Acme, Inc. (HUF)'',
         entityType = Organisation\<rparr>,
       \<lparr>pan = js ''XYZAB9876K'', relation = PAN_Of, entityName = js ''R K Sharma'',
         entityType = Name\<rparr>]"
  have h: "\<forall>r \<in> set ?rs. plain_field (pan r) \<and> plain_field (entityName r)"
    by (simp add: plain_field_def valid_field_def js_def DQUOTE_def is_ws_def
        is_line_terminator_def)
  from csv_round_trip [OF h] show ?thesis by blast
qed

text \<open>
  Without these conditions the names do not come back: a double quote in a name is
  lost, white space at its ends is lost, a name of white space alone loses its record,
  and a line terminator inside a name moves the fields.
\<close>

theorem csv_round_trip_counterexample:
  \<open>parseCsv (csvContent [\<lparr>pan = js ''ABCDE1234F'', relation = PAN_Of,
                           entityName = js ''A"B'', entityType = Name\<rparr>])
     = Inr [\<lparr>pan = js ''ABCDE1234F'', relation = PAN_Of,
              entityName = js ''AB'', entityType = Name\<rparr>]
   \<and> parseCsv (csvContent [\<lparr>pan = js ''ABCDE1234F'', relation = PAN_Of,
                             entityName = js '' X'', entityType = Name\<rparr>])
     = Inr [\<lparr>pan = js ''ABCDE1234F'', relation = PAN_Of,
              entityName = js ''X'', entityType = Name\<rparr>]
   \<and> parseCsv (csvContent [\<lparr>pan = js ''ABCDE1234F'', relation = PAN_Of,
                             entityName = js '' '', entityType = Name\<rparr>])
     = Inr []
   \<and> parseCsv (csvContent [\<lparr>pan = js ''ABCDE1234F'', relation = PAN_Of,
                             entityName = js ''A'' @ [8232] @ js ''B'', entityType = Name\<rparr>])
     = Inr [\<lparr>pan = js ''ABCDE1234F'', relation = PAN_Of,
              entityName = js '',Name'', entityType = Name\<rparr>]\<close>
  by (simp add: csvContent_eq csvRow_eq entityType_label_def parseCsv_def Let_def trim_def
      js_def is_ws_def LF_def CR_def headersOf_def COMMA_def DQUOTE_def remove_quotes_def
      double_quotes_def indexOf_def parseRow_def match_at_def greedy_bare_def lookahead_def
      is_line_terminator_def at_def upt_rec)

section \<open>The bound on the depth of JSON.parse is enough\<close>

lemma fuel_mono:
  "(\<forall>s x. parse_value n s = Some x \<longrightarrow> parse_value (Suc n) s = Some x)
 \<and> (\<forall>s y. parse_elements n s = Some y \<longrightarrow> parse_elements (Suc n) s = Some y)
 \<and> (\<forall>s z. parse_members n s = Some z \<longrightarrow> parse_members (Suc n) s = Some z)"
proof (induction n)
  case 0
  show ?case by simp
next
  case (Suc n)
  then have v: "\<And>s x. parse_value n s = Some x \<Longrightarrow> parse_value (Suc n) s = Some x"
    and e: "\<And>s y. parse_elements n s = Some y \<Longrightarrow> parse_elements (Suc n) s = Some y"
    and m: "\<And>s z. parse_members n s = Some z \<Longrightarrow> parse_members (Suc n) s = Some z"
    by blast+
  have 1: "parse_value (Suc (Suc n)) s = Some x" if "parse_value (Suc n) s = Some x" for s x
    using that
    apply (subst parse_value.simps)
    apply (subst (asm) parse_value.simps)
    apply (auto split: list.split_asm option.split_asm if_split_asm dest!: e m
        simp del: parse_value.simps parse_elements.simps parse_members.simps)
    done
  have 2: "parse_elements (Suc (Suc n)) s = Some x" if "parse_elements (Suc n) s = Some x" for s x
    using that
    apply (subst parse_elements.simps)
    apply (subst (asm) parse_elements.simps)
    apply (auto split: list.split_asm option.split_asm if_split_asm dest!: e v
        simp del: parse_value.simps parse_elements.simps parse_members.simps)
    done
  have 3: "parse_members (Suc (Suc n)) s = Some x" if "parse_members (Suc n) s = Some x" for s x
    using that
    apply (subst parse_members.simps)
    apply (subst (asm) parse_members.simps)
    apply (auto split: list.split_asm option.split_asm if_split_asm dest!: m v
        simp del: parse_value.simps parse_elements.simps parse_members.simps)
    done
  from 1 2 3 show ?case by blast
qed

lemma fuel_le:
  "n \<le> m \<Longrightarrow> parse_value n s = Some x \<Longrightarrow> parse_value m s = Some x"
  "n \<le> m \<Longrightarrow> parse_elements n s = Some y \<Longrightarrow> parse_elements m s = Some y"
  "n \<le> m \<Longrightarrow> parse_members n s = Some z \<Longrightarrow> parse_members m s = Some z"
  by (induction m; use fuel_mono le_Suc_eq in blast)+

lemma skip_ws_le: "length (skip_ws s) \<le> length s"
  by (simp add: skip_ws_def length_dropWhile_le)

lemma skip_ws_Cons: "skip_ws s = c # cs \<Longrightarrow> length cs < length s"
  using skip_ws_le [of s] by simp

lemma string_len: "parse_string_body s = Some (str, r) \<Longrightarrow> length r < length s"
proof (induction s arbitrary: str r rule: length_induct)
  case (1 s)
  show ?case
  proof (cases s)
    case Nil
    with "1.prems" show ?thesis by simp
  next
    case (Cons c cs)
    from "1.IH" have ih: "\<And>ys str r. parse_string_body ys = Some (str, r) \<Longrightarrow>
        length ys < Suc (length cs) \<Longrightarrow> length r < length ys"
      unfolding Cons by simp
    from "1.prems" show ?thesis
      unfolding Cons
      apply (subst (asm) parse_string_body.simps)
      apply (auto split: if_split_asm list.split_asm option.split_asm dest!: ih
          simp del: parse_string_body.simps)
      done
  qed
qed

lemma int_len: "parse_int s = Some (l, r) \<Longrightarrow> length r < length s"
  using length_dropWhile_le [of is_digit "tl s"] length_dropWhile_le [of is_digit "tl (tl s)"]
  by (auto simp: parse_int_def Let_def split: list.split_asm if_split_asm prod.split_asm)

lemma frac_len: "parse_frac s = Some (l, r) \<Longrightarrow> length r \<le> length s"
  using length_dropWhile_le [of is_digit "tl s"]
  by (auto simp: parse_frac_def split: list.split_asm if_split_asm)

lemma exp_len: "parse_exp s = Some (l, r) \<Longrightarrow> length r \<le> length s"
  using length_dropWhile_le [of is_digit "tl s"] length_dropWhile_le [of is_digit "tl (tl s)"]
  by (auto simp: parse_exp_def Let_def split: list.split_asm if_split_asm prod.split_asm)

lemma number_len: "parse_number s = Some (lexeme, r) \<Longrightarrow> length r < length s"
  by (auto simp: parse_number_def split: option.split_asm dest!: int_len frac_len exp_len)

lemma scalar_len: "parse_scalar s = Some (v, r) \<Longrightarrow> length r < length s"
  by (auto simp: parse_scalar_def js_def split: list.split_asm if_split_asm option.split_asm
      dest!: string_len number_len)

lemmas parse_simps = parse_value.simps parse_elements.simps parse_members.simps

lemma value_cases [consumes 1, case_names obj0 obj arr0 arr scalar]:
  assumes "parse_value (Suc n) s = Some x"
  obtains cs ds where "skip_ws s = 123 # cs" "skip_ws cs = 125 # ds" "x = (JObject [], ds)"
  | cs d ds ms r where "skip_ws s = 123 # cs" "skip_ws cs = d # ds" "d \<noteq> 125"
      "parse_members n (d # ds) = Some (ms, r)" "x = (JObject ms, r)"
  | cs ds where "skip_ws s = 91 # cs" "skip_ws cs = 93 # ds" "x = (JArray [], ds)"
  | cs d ds vs r where "skip_ws s = 91 # cs" "skip_ws cs = d # ds" "d \<noteq> 93"
      "parse_elements n (d # ds) = Some (vs, r)" "x = (JArray vs, r)"
  | c cs where "skip_ws s = c # cs" "c \<noteq> 123" "c \<noteq> 91" "parse_scalar (c # cs) = Some x"
  using assms
  apply (subst (asm) parse_value.simps)
  apply (auto split: list.split_asm if_split_asm option.split_asm simp del: parse_simps)
  done

lemma elements_cases [consumes 1, case_names more last]:
  assumes "parse_elements (Suc n) s = Some y"
  obtains v r ds vs r' where "parse_value n s = Some (v, r)" "skip_ws r = 44 # ds"
      "parse_elements n ds = Some (vs, r')" "y = (v # vs, r')"
  | v r ds where "parse_value n s = Some (v, r)" "skip_ws r = 93 # ds" "y = ([v], ds)"
  using assms
  apply (subst (asm) parse_elements.simps)
  apply (auto split: list.split_asm if_split_asm option.split_asm simp del: parse_simps)
  done

lemma members_cases [consumes 1, case_names more last]:
  assumes "parse_members (Suc n) s = Some z"
  obtains cs k r ds v r' es ms r'' where "skip_ws s = 34 # cs"
      "parse_string_body cs = Some (k, r)" "skip_ws r = 58 # ds"
      "parse_value n ds = Some (v, r')" "skip_ws r' = 44 # es"
      "parse_members n es = Some (ms, r'')" "z = ((k, v) # ms, r'')"
  | cs k r ds v r' es where "skip_ws s = 34 # cs"
      "parse_string_body cs = Some (k, r)" "skip_ws r = 58 # ds"
      "parse_value n ds = Some (v, r')" "skip_ws r' = 125 # es" "z = ([(k, v)], es)"
  using assms
  apply (subst (asm) parse_members.simps)
  apply (auto split: list.split_asm if_split_asm option.split_asm simp del: parse_simps)
  done

lemma consumed:
  "(\<forall>s v r. parse_value n s = Some (v, r) \<longrightarrow> length r < length s)
 \<and> (\<forall>s vs r. parse_elements n s = Some (vs, r) \<longrightarrow> length r < length s)
 \<and> (\<forall>s ms r. parse_members n s = Some (ms, r) \<longrightarrow> length r < length s)"
proof (induction n)
  case 0
  show ?case by simp
next
  case (Suc n)
  then have v: "\<And>s v r. parse_value n s = Some (v, r) \<Longrightarrow> length r < length s"
    and e: "\<And>s vs r. parse_elements n s = Some (vs, r) \<Longrightarrow> length r < length s"
    and m: "\<And>s ms r. parse_members n s = Some (ms, r) \<Longrightarrow> length r < length s"
    by blast+
  have 1: "length r < length s" if "parse_value (Suc n) s = Some (v, r)" for s v r
    using that
  proof (cases rule: value_cases)
    case (obj0 cs ds)
    then show ?thesis using skip_ws_Cons [of s] skip_ws_Cons [of cs] by simp
  next
    case (obj cs d ds ms r')
    then show ?thesis using skip_ws_Cons [of s] skip_ws_Cons [of cs] m [of "d # ds"] by simp
  next
    case (arr0 cs ds)
    then show ?thesis using skip_ws_Cons [of s] skip_ws_Cons [of cs] by simp
  next
    case (arr cs d ds vs r')
    then show ?thesis using skip_ws_Cons [of s] skip_ws_Cons [of cs] e [of "d # ds"] by simp
  next
    case (scalar c cs)
    then show ?thesis using skip_ws_le [of s] scalar_len [of "c # cs" v r] by simp
  qed
  have 2: "length r < length s" if "parse_elements (Suc n) s = Some (vs, r)" for s vs r
    using that
  proof (cases rule: elements_cases)
    case (more v' r1 ds vs' r')
    then show ?thesis using v [of s v' r1] skip_ws_Cons [of r1] e [of ds vs' r'] by simp
  next
    case (last v' r1 ds)
    then show ?thesis using v [of s v' r1] skip_ws_Cons [of r1] by simp
  qed
  have 3: "length r < length s" if "parse_members (Suc n) s = Some (ms, r)" for s ms r
    using that
  proof (cases rule: members_cases)
    case (more cs k r1 ds v' r2 es ms' r3)
    then show ?thesis
      using skip_ws_Cons [of s] string_len [of cs k r1] skip_ws_Cons [of r1] v [of ds v' r2]
        skip_ws_Cons [of r2] m [of es ms' r3] by simp
  next
    case (last cs k r1 ds v' r2 es)
    then show ?thesis
      using skip_ws_Cons [of s] string_len [of cs k r1] skip_ws_Cons [of r1] v [of ds v' r2]
        skip_ws_Cons [of r2] by simp
  qed
  from 1 2 3 show ?case by blast
qed


lemma enough_fuel:
  "(\<forall>s x. parse_value n s = Some x \<longrightarrow> parse_value (2 * length s) s = Some x)
 \<and> (\<forall>s y. parse_elements n s = Some y \<longrightarrow> parse_elements (2 * length s + 1) s = Some y)
 \<and> (\<forall>s z. parse_members n s = Some z \<longrightarrow> parse_members (2 * length s + 1) s = Some z)"
proof (induction n)
  case 0
  show ?case by simp
next
  case (Suc n)
  then have v: "\<And>s x. parse_value n s = Some x \<Longrightarrow> parse_value (2 * length s) s = Some x"
    and e: "\<And>s y. parse_elements n s = Some y \<Longrightarrow> parse_elements (2 * length s + 1) s = Some y"
    and m: "\<And>s z. parse_members n s = Some z \<Longrightarrow> parse_members (2 * length s + 1) s = Some z"
    by blast+
  have 1: "parse_value (2 * length s) s = Some x" if h: "parse_value (Suc n) s = Some x" for s x
  proof -
    define K where "K = Suc (2 * (length s - 1))"
    from h consumed [of "Suc n"] have "s \<noteq> []" by (cases x) fastforce
    then have eq: "2 * length s = Suc K" by (cases s) (simp_all add: K_def)
    have "parse_value (Suc K) s = Some x"
      using h
    proof (cases rule: value_cases)
      case (obj0 cs ds)
      then show ?thesis by simp
    next
      case (obj cs d ds ms r)
      have "2 * length (d # ds) + 1 \<le> K"
        using skip_ws_Cons [OF obj(1)] skip_ws_le [of cs] obj(2) by (simp add: K_def)
      from fuel_le(3) [OF this m [OF obj(4)]] obj show ?thesis
        by (subst parse_value.simps) simp
    next
      case (arr0 cs ds)
      then show ?thesis by simp
    next
      case (arr cs d ds vs r)
      have "2 * length (d # ds) + 1 \<le> K"
        using skip_ws_Cons [OF arr(1)] skip_ws_le [of cs] arr(2) by (simp add: K_def)
      from fuel_le(2) [OF this e [OF arr(4)]] arr show ?thesis
        by (subst parse_value.simps) simp
    next
      case (scalar c cs)
      then show ?thesis by simp
    qed
    then show ?thesis by (simp only: eq)
  qed
  have 2: "parse_elements (2 * length s + 1) s = Some y"
    if h: "parse_elements (Suc n) s = Some y" for s y
  proof -
    have "parse_elements (Suc (2 * length s)) s = Some y"
      using h
    proof (cases rule: elements_cases)
      case (more v' r ds vs r')
      from consumed [of n] more(1) have "length r < length s" by blast
      then have "2 * length ds + 1 \<le> 2 * length s"
        using skip_ws_Cons [OF more(2)] by simp
      from fuel_le(2) [OF this e [OF more(3)]] v [OF more(1)] more show ?thesis
        by (subst parse_elements.simps) simp
    next
      case (last v' r ds)
      with v [OF last(1)] show ?thesis
        by (subst parse_elements.simps) simp
    qed
    then show ?thesis by simp
  qed
  have 3: "parse_members (2 * length s + 1) s = Some z"
    if h: "parse_members (Suc n) s = Some z" for s z
  proof -
    have "parse_members (Suc (2 * length s)) s = Some z"
      using h
    proof (cases rule: members_cases)
      case (more cs k r ds v' r' es ms r'')
      have ds: "length ds < length s"
        using skip_ws_Cons [OF more(1)] string_len [OF more(2)] skip_ws_Cons [OF more(3)] by simp
      then have "2 * length ds \<le> 2 * length s" by simp
      from fuel_le(1) [OF this v [OF more(4)]]
      have pv: "parse_value (2 * length s) ds = Some (v', r')" .
      from consumed [of n] more(4) have "length r' < length ds" by blast
      then have "2 * length es + 1 \<le> 2 * length s"
        using skip_ws_Cons [OF more(5)] ds by simp
      from fuel_le(3) [OF this m [OF more(6)]] pv more show ?thesis
        by (subst parse_members.simps) simp
    next
      case (last cs k r ds v' r' es)
      have ds: "length ds < length s"
        using skip_ws_Cons [OF last(1)] string_len [OF last(2)] skip_ws_Cons [OF last(3)] by simp
      then have "2 * length ds \<le> 2 * length s" by simp
      from fuel_le(1) [OF this v [OF last(4)]] last show ?thesis
        by (subst parse_members.simps) simp
    qed
    then show ?thesis by simp
  qed
  from 1 2 3 show ?case by blast
qed

text \<open>More fuel than \<open>JSON_parse\<close> gives never changes the result.\<close>

lemma JSON_parse_fuel:
  "2 * length s + 2 \<le> n \<Longrightarrow>
   JSON_parse s = (case parse_value n s of
                     None \<Rightarrow> None
                   | Some (v, r) \<Rightarrow> if skip_ws r = [] then Some v else None)"
proof -
  assume n: "2 * length s + 2 \<le> n"
  have "parse_value n s = parse_value (2 * length s + 2) s"
  proof (cases "parse_value n s")
    case None
    then have "parse_value (2 * length s + 2) s = None"
      using fuel_le(1) [OF n] by (cases "parse_value (2 * length s + 2) s") auto
    with None show ?thesis by simp
  next
    case (Some x)
    with enough_fuel [of n] have "parse_value (2 * length s) s = Some x" by blast
    then have "parse_value (2 * length s + 2) s = Some x"
      by (rule fuel_le(1) [rotated]) simp
    with Some show ?thesis by simp
  qed
  then show ?thesis by (simp add: JSON_parse_def)
qed

lemma JSON_parse_Nil: "JSON_parse [] = None"
  by (simp add: JSON_parse_def skip_ws_def)

lemma parse1: \<open>JSON_parse (js ''[{}]'') = Some (JArray [JObject []])\<close>
  by (simp add: JSON_parse_def parse_scalar_def skip_ws_def js_def is_json_ws_def eval_nat_numeral)

lemma parse2: \<open>JSON_parse (js ''{not json'') = None\<close>
  by (simp add: JSON_parse_def parse_scalar_def skip_ws_def js_def is_json_ws_def eval_nat_numeral)

lemma parse3: \<open>JSON_parse (js ''{}'') = Some (JObject [])\<close>
  by (simp add: JSON_parse_def parse_scalar_def skip_ws_def js_def is_json_ws_def eval_nat_numeral)

lemma parse4: \<open>JSON_parse (js ''[{"pan":"ABCDE1234F","entityName":42}]'') = Some (JArray [JObject [(js ''pan'', JString (js ''ABCDE1234F'')), (js ''entityName'', JNumber (js ''42''))]])\<close>
  by (simp add: JSON_parse_def parse_scalar_def skip_ws_def js_def is_json_ws_def eval_nat_numeral
      parse_number_def parse_int_def parse_frac_def parse_exp_def is_digit_def)


lemma trim_Nil: "trim [] = []"
  by (simp add: trim_def)

lemma trim_json: \<open>trim (js ''{not json'') = js ''{not json''\<close> \<open>trim (js ''[{}]'') = js ''[{}]''\<close>
  \<open>trim (js ''{}'') = js ''{}''\<close>
  by (simp_all add: trim_def js_def is_ws_def)

text \<open>
  C2, what the code does.  For a response that is empty or white space alone the
  \<open>try\<close> block throws the error with the message of the empty response, and the
  \<open>catch\<close> block replaces it: the caller gets the same error as for a failure of the
  service.  A response that is no JSON gives the other message.
\<close>

theorem extract_empty_response_error:
  "(trim t = [] \<longrightarrow>
      extract_try (\<lambda>p. Resolves (Some t)) doc = Inl (Error emptyError)
    \<and> extractEntitiesFromText (\<lambda>p. Resolves (Some t)) doc = Inl serviceError
    \<and> extractEntitiesFromText (\<lambda>p. Resolves (Some t)) doc
        = extractEntitiesFromText (\<lambda>p. Rejects) doc)
   \<and> extractEntitiesFromText (\<lambda>p. Resolves (Some [])) doc = Inl serviceError
   \<and> extractEntitiesFromText (\<lambda>p. Rejects) doc = Inl serviceError
   \<and> extractEntitiesFromText (\<lambda>p. Resolves (Some (js ''{not json''))) doc = Inl malformedError
   \<and> serviceError \<noteq> malformedError"
proof -
  have a: "extract_try (\<lambda>p. Resolves (Some t)) doc = Inl (Error emptyError)"
    if "trim t = []" for t
    using that by (simp add: extract_try_def)
  have b: "extractEntitiesFromText (\<lambda>p. Resolves (Some t)) doc = Inl serviceError"
    if "trim t = []" for t
    by (simp add: extractEntitiesFromText_def a [OF that] serviceError_def)
  have c: "extractEntitiesFromText (\<lambda>p. Rejects) doc = Inl serviceError"
    by (simp add: extractEntitiesFromText_def extract_try_def serviceError_def)
  have ne: \<open>js ''{not json'' \<noteq> []\<close> by (simp add: js_def)
  have d: "extractEntitiesFromText (\<lambda>p. Resolves (Some (js ''{not json''))) doc = Inl malformedError"
    by (simp add: extractEntitiesFromText_def extract_try_def trim_json parse2 ne malformedError_def)
  have e: "serviceError \<noteq> malformedError"
    by (simp add: serviceError_def malformedError_def)
  from a b [of t] b [OF trim_Nil] c d e show ?thesis by simp
qed

theorem extract_empty_response_error_witness:
  "trim (js '' \<newline> '') = []
   \<and> extractEntitiesFromText (\<lambda>p. Resolves (Some (js '' \<newline> ''))) (js ''doc'') = Inl serviceError
   \<and> extractEntitiesFromText (\<lambda>p. Rejects) (js ''doc'') = Inl serviceError"
proof -
  have t: "trim (js '' \<newline> '') = []" by (simp add: trim_def js_def is_ws_def)
  from extract_empty_response_error [of "js '' \<newline> ''" "js ''doc''"] t show ?thesis by simp
qed

text \<open>
  C5 (as amended).  When the response parses as JSON, the only check is that the parsed
  value is an array: an array is returned as parsed, whatever its elements are, and any
  other value makes the call fail.
\<close>

theorem extract_array_only:
  assumes "generateContent (prompt doc) = Resolves (Some t)"
    and "JSON_parse (trim t) = Some v"
  shows "(\<forall>elements. v = JArray elements \<longrightarrow>
            extractEntitiesFromText generateContent doc = Inr elements)
       \<and> ((\<forall>elements. v \<noteq> JArray elements) \<longrightarrow>
            (\<exists>e. extractEntitiesFromText generateContent doc = Inl e))"
proof -
  from assms(2) have ne: "trim t \<noteq> []" using JSON_parse_Nil by auto
  show ?thesis
    using assms ne
    by (cases v) (auto simp: extractEntitiesFromText_def extract_try_def)
qed

theorem extract_array_only_witness:
  \<open>extractEntitiesFromText (\<lambda>p. Resolves (Some (js ''[{}]''))) (js ''doc'') = Inr [JObject []]
   \<and> (\<exists>e. extractEntitiesFromText (\<lambda>p. Resolves (Some (js ''{}''))) (js ''doc'') = Inl e)\<close>
proof -
  have 1: \<open>(\<lambda>p. Resolves (Some (js ''[{}]''))) (prompt (js ''doc'')) = Resolves (Some (js ''[{}]''))\<close>
    by simp
  have 2: \<open>JSON_parse (trim (js ''[{}]'')) = Some (JArray [JObject []])\<close>
    by (simp add: trim_json parse1)
  have 3: \<open>(\<lambda>p. Resolves (Some (js ''{}''))) (prompt (js ''doc'')) = Resolves (Some (js ''{}''))\<close>
    by simp
  have 4: \<open>JSON_parse (trim (js ''{}'')) = Some (JObject [])\<close>
    by (simp add: trim_json parse3)
  from extract_array_only [OF 1 2] extract_array_only [OF 3 4] show ?thesis by simp
qed

text \<open>
  The array \<open>[{}]\<close>, whose element has none of the four fields, is returned; the
  object \<open>{}\<close>, which parses, fails with the message of the service failure.
\<close>

theorem extract_validation_counterexample:
  \<open>extractEntitiesFromText (\<lambda>p. Resolves (Some (js ''[{}]''))) (js ''doc'') = Inr [JObject []]
   \<and> \<not> has_all_fields (JObject [])
   \<and> extractEntitiesFromText (\<lambda>p. Resolves (Some (js ''{}''))) (js ''doc'') = Inl serviceError
   \<and> JSON_parse (js ''{}'') = Some (JObject [])
   \<and> serviceError \<noteq> malformedError\<close>
proof -
  have ne: \<open>js ''[{}]'' \<noteq> []\<close> \<open>js ''{}'' \<noteq> []\<close> by (simp_all add: js_def)
  show ?thesis
    by (simp add: extractEntitiesFromText_def extract_try_def trim_json parse1 parse3 ne
        has_all_fields_def serviceError_def malformedError_def)
qed

end
